theory Spec2Isabelle
  imports Main "HOL-Library.Word" "HOL-Library.Multiset"
begin

section \<open>The node store\<close>

text \<open>
  A shallow embedding of \<^verbatim>\<open>s21::list<Type>\<close> (\<^verbatim>\<open>s21_list.h\<close>).
  A \<^verbatim>\<open>node_type *\<close> is a 64-bit address and \<^verbatim>\<open>size_type\<close> (\<^verbatim>\<open>std::size_t\<close>) is a
  64-bit unsigned word, so \<^verbatim>\<open>++size_\<close> and \<^verbatim>\<open>--size_\<close> wrap as in the source. The
  three members of \<^verbatim>\<open>ListNode\<close> (\<^verbatim>\<open>next_\<close>, \<^verbatim>\<open>prev_\<close>, \<^verbatim>\<open>value_\<close>) are one
  map each from addresses to the member's contents; \<open>alloc\<close> is the set of addresses
  that currently hold a live node. Isabelle does not accept names that end in an
  underscore, hence \<open>next_n\<close> for \<^verbatim>\<open>next_\<close>, \<open>head_l\<close> for \<^verbatim>\<open>head_\<close> and so on.
\<close>

type_synonym addr = "64 word"
type_synonym size_type = "64 word"

definition nullptr :: addr where
  "nullptr = 0"

record 'a heap =
  alloc :: "addr set"
  next_n :: "addr \<Rightarrow> addr"
  prev_n :: "addr \<Rightarrow> addr"
  value_n :: "addr \<Rightarrow> 'a"

record s21_list =
  head_l :: addr
  size_l :: size_type

text \<open>
  Reading or writing through a pointer that is null or not live is undefined behaviour
  in the source; the model returns \<open>Inl BadPointer\<close> there. Every loop takes a fuel
  argument that bounds the number of times its condition is evaluated, and
  \<open>Inl OutOfFuel\<close> says the bound was reached.
\<close>

datatype fault = BadPointer | OutOfFuel

definition bind_r :: "fault + 'x \<Rightarrow> ('x \<Rightarrow> fault + 'y) \<Rightarrow> fault + 'y" where
  "bind_r m f = (case m of Inl e \<Rightarrow> Inl e | Inr x \<Rightarrow> f x)"

definition valid :: "'a heap \<Rightarrow> addr \<Rightarrow> bool" where
  "valid h p \<longleftrightarrow> p \<noteq> nullptr \<and> p \<in> alloc h"

definition rd_next :: "'a heap \<Rightarrow> addr \<Rightarrow> fault + addr" where
  "rd_next h p = (if valid h p then Inr (next_n h p) else Inl BadPointer)"

definition rd_prev :: "'a heap \<Rightarrow> addr \<Rightarrow> fault + addr" where
  "rd_prev h p = (if valid h p then Inr (prev_n h p) else Inl BadPointer)"

definition rd_value :: "'a heap \<Rightarrow> addr \<Rightarrow> fault + 'a" where
  "rd_value h p = (if valid h p then Inr (value_n h p) else Inl BadPointer)"

definition wr_next :: "'a heap \<Rightarrow> addr \<Rightarrow> addr \<Rightarrow> fault + 'a heap" where
  "wr_next h p q =
     (if valid h p then Inr (h\<lparr>next_n := (next_n h)(p := q)\<rparr>) else Inl BadPointer)"

definition wr_prev :: "'a heap \<Rightarrow> addr \<Rightarrow> addr \<Rightarrow> fault + 'a heap" where
  "wr_prev h p q =
     (if valid h p then Inr (h\<lparr>prev_n := (prev_n h)(p := q)\<rparr>) else Inl BadPointer)"

definition wr_value :: "'a heap \<Rightarrow> addr \<Rightarrow> 'a \<Rightarrow> fault + 'a heap" where
  "wr_value h p v =
     (if valid h p then Inr (h\<lparr>value_n := (value_n h)(p := v)\<rparr>) else Inl BadPointer)"

subsection \<open>ListNode\<close>

text \<open>
  \<^verbatim>\<open>new node_type{}\<close>: the default constructor makes a self-loop holding
  \<^verbatim>\<open>value_type{}\<close>. The address \<open>p\<close> is the one the allocator returns and \<open>d\<close>
  stands for \<^verbatim>\<open>value_type{}\<close>.
\<close>

definition ListNode_default :: "addr \<Rightarrow> 'a \<Rightarrow> 'a heap \<Rightarrow> 'a heap" where
  "ListNode_default p d h =
     h\<lparr>alloc := insert p (alloc h), next_n := (next_n h)(p := p),
       prev_n := (prev_n h)(p := p), value_n := (value_n h)(p := d)\<rparr>"

text \<open>\<^verbatim>\<open>new node_type(value)\<close>: both links are null until the node is attached.\<close>

definition ListNode_value :: "addr \<Rightarrow> 'a \<Rightarrow> 'a heap \<Rightarrow> 'a heap" where
  "ListNode_value p v h =
     h\<lparr>alloc := insert p (alloc h), next_n := (next_n h)(p := nullptr),
       prev_n := (prev_n h)(p := nullptr), value_n := (value_n h)(p := v)\<rparr>"

text \<open>\<^verbatim>\<open>delete p\<close>: a null pointer is ignored, a pointer that is not live is a fault.\<close>

definition delete_node :: "addr \<Rightarrow> 'a heap \<Rightarrow> fault + 'a heap" where
  "delete_node p h =
     (if p = nullptr then Inr h
      else if p \<in> alloc h then Inr (h\<lparr>alloc := alloc h - {p}\<rparr>)
      else Inl BadPointer)"

text \<open>
  \<^verbatim>\<open>AttachPrev\<close>:
  \<^verbatim>\<open>new_node->next_ = this; new_node->prev_ = prev_; prev_->next_ = new_node; prev_ = new_node;\<close>
\<close>

definition AttachPrev :: "addr \<Rightarrow> addr \<Rightarrow> 'a heap \<Rightarrow> fault + 'a heap" where
  "AttachPrev this new_node h =
     bind_r (wr_next h new_node this) (\<lambda>h1.
     bind_r (rd_prev h1 this) (\<lambda>p.
     bind_r (wr_prev h1 new_node p) (\<lambda>h2.
     bind_r (rd_prev h2 this) (\<lambda>p2.
     bind_r (wr_next h2 p2 new_node) (\<lambda>h3.
     wr_prev h3 this new_node)))))"

text \<open>
  \<^verbatim>\<open>UnAttach\<close>:
  \<^verbatim>\<open>prev_->next_ = next_; next_->prev_ = prev_; next_ = this; prev_ = this;\<close>
\<close>

definition UnAttach :: "addr \<Rightarrow> 'a heap \<Rightarrow> fault + 'a heap" where
  "UnAttach this h =
     bind_r (rd_prev h this) (\<lambda>p.
     bind_r (rd_next h this) (\<lambda>n.
     bind_r (wr_next h p n) (\<lambda>h1.
     bind_r (rd_next h1 this) (\<lambda>n1.
     bind_r (rd_prev h1 this) (\<lambda>p1.
     bind_r (wr_prev h1 n1 p1) (\<lambda>h2.
     bind_r (wr_next h2 this this) (\<lambda>h3.
     wr_prev h3 this this)))))))"

text \<open>\<^verbatim>\<open>SwapValues\<close>: \<^verbatim>\<open>std::swap(value_, other_node->value_)\<close>.\<close>

definition SwapValues :: "addr \<Rightarrow> addr \<Rightarrow> 'a heap \<Rightarrow> fault + 'a heap" where
  "SwapValues this other_node h =
     bind_r (rd_value h this) (\<lambda>a.
     bind_r (rd_value h other_node) (\<lambda>b.
     bind_r (wr_value h this b) (\<lambda>h1.
     wr_value h1 other_node a)))"

text \<open>\<^verbatim>\<open>SwapNextPrev\<close>: \<^verbatim>\<open>std::swap(next_, prev_)\<close>.\<close>

definition SwapNextPrev :: "addr \<Rightarrow> 'a heap \<Rightarrow> fault + 'a heap" where
  "SwapNextPrev this h =
     bind_r (rd_next h this) (\<lambda>n.
     bind_r (rd_prev h this) (\<lambda>p.
     bind_r (wr_next h this p) (\<lambda>h1.
     wr_prev h1 this n)))"

subsection \<open>ListIterator\<close>

text \<open>
  An iterator is the address of its node. \<^verbatim>\<open>operator*\<close> reads \<^verbatim>\<open>node_->value_\<close>,
  \<^verbatim>\<open>operator++\<close> moves to \<^verbatim>\<open>node_->next_\<close>, \<^verbatim>\<open>operator--\<close> to \<^verbatim>\<open>node_->prev_\<close>, and
  two iterators are equal when their nodes are the same address.
\<close>

definition it_deref :: "'a heap \<Rightarrow> addr \<Rightarrow> fault + 'a" where
  "it_deref h it = rd_value h it"

definition it_inc :: "'a heap \<Rightarrow> addr \<Rightarrow> fault + addr" where
  "it_inc h it = rd_next h it"

definition it_dec :: "'a heap \<Rightarrow> addr \<Rightarrow> fault + addr" where
  "it_dec h it = rd_prev h it"

section \<open>The list\<close>

text \<open>
  An operation takes the store and the list object and returns both updated. Where
  the source calls \<^verbatim>\<open>new\<close>, the model takes the address that the allocator returns
  as an argument; allocation failure is not modelled.
\<close>

definition list_ctor :: "addr \<Rightarrow> 'a \<Rightarrow> 'a heap \<Rightarrow> 'a heap \<times> s21_list" where
  "list_ctor p d h = (ListNode_default p d h, \<lparr>head_l = p, size_l = 0\<rparr>)"

definition begin_l :: "'a heap \<Rightarrow> s21_list \<Rightarrow> fault + addr" where
  "begin_l h l = rd_next h (head_l l)"

definition end_l :: "s21_list \<Rightarrow> addr" where
  "end_l l = head_l l"

definition empty_l :: "s21_list \<Rightarrow> bool" where
  "empty_l l \<longleftrightarrow> size_l l = 0"

definition size_of :: "s21_list \<Rightarrow> size_type" where
  "size_of l = size_l l"

text \<open>\<^verbatim>\<open>max_size\<close> returns \<^verbatim>\<open>std::numeric_limits<size_type>::max()\<close>.\<close>

definition max_size :: "s21_list \<Rightarrow> size_type" where
  "max_size l = 18446744073709551615"

definition insert_l ::
  "'a heap \<Rightarrow> s21_list \<Rightarrow> addr \<Rightarrow> 'a \<Rightarrow> addr \<Rightarrow> fault + ('a heap \<times> s21_list \<times> addr)" where
  "insert_l h l pos v new_node =
     bind_r (AttachPrev pos new_node (ListNode_value new_node v h)) (\<lambda>h1.
     Inr (h1, l\<lparr>size_l := size_l l + 1\<rparr>, new_node))"

definition erase :: "'a heap \<Rightarrow> s21_list \<Rightarrow> addr \<Rightarrow> fault + ('a heap \<times> s21_list)" where
  "erase h l pos =
     (if pos \<noteq> end_l l then
        bind_r (UnAttach pos h) (\<lambda>h1.
        bind_r (delete_node pos h1) (\<lambda>h2.
        Inr (h2, l\<lparr>size_l := size_l l - 1\<rparr>)))
      else Inr (h, l))"

definition push_back ::
  "'a heap \<Rightarrow> s21_list \<Rightarrow> 'a \<Rightarrow> addr \<Rightarrow> fault + ('a heap \<times> s21_list)" where
  "push_back h l v new_node =
     bind_r (insert_l h l (end_l l) v new_node) (\<lambda>(h1, l1, it). Inr (h1, l1))"

definition pop_back :: "'a heap \<Rightarrow> s21_list \<Rightarrow> fault + ('a heap \<times> s21_list)" where
  "pop_back h l = bind_r (it_dec h (end_l l)) (\<lambda>it. erase h l it)"

definition push_front ::
  "'a heap \<Rightarrow> s21_list \<Rightarrow> 'a \<Rightarrow> addr \<Rightarrow> fault + ('a heap \<times> s21_list)" where
  "push_front h l v new_node =
     bind_r (begin_l h l) (\<lambda>b.
     bind_r (insert_l h l b v new_node) (\<lambda>(h1, l1, it). Inr (h1, l1)))"

definition pop_front :: "'a heap \<Rightarrow> s21_list \<Rightarrow> fault + ('a heap \<times> s21_list)" where
  "pop_front h l = bind_r (begin_l h l) (\<lambda>b. erase h l b)"

text \<open>\<^verbatim>\<open>clear\<close>: \<^verbatim>\<open>while (size_ > 0) erase(begin());\<close>\<close>

fun clear :: "nat \<Rightarrow> 'a heap \<Rightarrow> s21_list \<Rightarrow> fault + ('a heap \<times> s21_list)" where
  "clear 0 h l = Inl OutOfFuel"
| "clear (Suc fuel) h l =
     (if size_l l > 0 then
        bind_r (begin_l h l) (\<lambda>b.
        bind_r (erase h l b) (\<lambda>(h1, l1). clear fuel h1 l1))
      else Inr (h, l))"

text \<open>The destructor: \<^verbatim>\<open>clear(); delete head_; head_ = nullptr;\<close>\<close>

definition list_dtor :: "nat \<Rightarrow> 'a heap \<Rightarrow> s21_list \<Rightarrow> fault + 'a heap" where
  "list_dtor fuel h l =
     bind_r (clear fuel h l) (\<lambda>(h1, l1). delete_node (head_l l1) h1)"

subsection \<open>splice\<close>

text \<open>
  \<open>splice_l h this pos other\<close> is \<^verbatim>\<open>this->splice(pos, other)\<close> for two different list
  objects (the two records are passed and returned separately).
\<close>

definition splice_l ::
  "'a heap \<Rightarrow> s21_list \<Rightarrow> addr \<Rightarrow> s21_list \<Rightarrow> fault + ('a heap \<times> s21_list \<times> s21_list)" where
  "splice_l h this pos other =
     (if \<not> empty_l other then
        let it_current = pos; it_other = end_l other in
        bind_r (rd_next h it_other) (\<lambda>on.
        bind_r (rd_prev h it_current) (\<lambda>cp.
        bind_r (wr_prev h on cp) (\<lambda>h1.
        bind_r (rd_prev h1 it_other) (\<lambda>op.
        bind_r (wr_next h1 op it_current) (\<lambda>h2.
        bind_r (rd_prev h2 it_current) (\<lambda>cp2.
        bind_r (rd_next h2 it_other) (\<lambda>on2.
        bind_r (wr_next h2 cp2 on2) (\<lambda>h3.
        bind_r (rd_prev h3 it_other) (\<lambda>op3.
        bind_r (wr_prev h3 it_current op3) (\<lambda>h4.
        let this1 = this\<lparr>size_l := size_l this + size_of other\<rparr>;
            other1 = other\<lparr>size_l := 0\<rparr> in
        bind_r (wr_next h4 (head_l other1) (head_l other1)) (\<lambda>h5.
        bind_r (wr_prev h5 (head_l other1) (head_l other1)) (\<lambda>h6.
        Inr (h6, this1, other1)))))))))))))
      else Inr (h, this, other))"

subsection \<open>merge\<close>

fun merge_loop ::
  "nat \<Rightarrow> ('a::linorder) heap \<Rightarrow> s21_list \<Rightarrow> s21_list \<Rightarrow> addr \<Rightarrow> addr \<Rightarrow> addr \<Rightarrow> addr
     \<Rightarrow> fault + ('a heap \<times> s21_list \<times> s21_list)" where
  "merge_loop 0 h this other this_begin this_end other_begin other_end = Inl OutOfFuel"
| "merge_loop (Suc fuel) h this other this_begin this_end other_begin other_end =
     (if this_begin \<noteq> this_end \<and> other_begin \<noteq> other_end then
        bind_r (it_deref h other_begin) (\<lambda>ov.
        bind_r (it_deref h this_begin) (\<lambda>tv.
        if ov < tv then
          let tmp = other_begin in
          bind_r (it_inc h other_begin) (\<lambda>other_begin1.
          bind_r (UnAttach tmp h) (\<lambda>h1.
          let other1 = other\<lparr>size_l := size_l other - 1\<rparr> in
          bind_r (AttachPrev this_begin tmp h1) (\<lambda>h2.
          let this1 = this\<lparr>size_l := size_l this + 1\<rparr> in
          merge_loop fuel h2 this1 other1 this_begin this_end other_begin1 other_end)))
        else
          bind_r (it_inc h this_begin) (\<lambda>this_begin1.
          merge_loop fuel h this other this_begin1 this_end other_begin other_end)))
      else Inr (h, this, other))"

text \<open>
  \<open>same_object\<close> is the outcome of the source's test \<^verbatim>\<open>this != &other\<close>, negated: with
  \<open>same_object\<close> the call does nothing.
\<close>

definition merge ::
  "nat \<Rightarrow> bool \<Rightarrow> ('a::linorder) heap \<Rightarrow> s21_list \<Rightarrow> s21_list
     \<Rightarrow> fault + ('a heap \<times> s21_list \<times> s21_list)" where
  "merge fuel same_object h this other =
     (if \<not> same_object then
        bind_r (begin_l h this) (\<lambda>this_begin.
        let this_end = end_l this in
        bind_r (begin_l h other) (\<lambda>other_begin.
        let other_end = end_l other in
        bind_r (merge_loop fuel h this other this_begin this_end other_begin other_end)
          (\<lambda>(h1, this1, other1).
        splice_l h1 this1 (end_l this1) other1)))
      else Inr (h, this, other))"

subsection \<open>reverse\<close>

fun reverse_loop :: "nat \<Rightarrow> 'a heap \<Rightarrow> addr \<Rightarrow> addr \<Rightarrow> fault + 'a heap" where
  "reverse_loop 0 h begin_iterator end_iterator = Inl OutOfFuel"
| "reverse_loop (Suc fuel) h begin_iterator end_iterator =
     (if begin_iterator \<noteq> end_iterator then
        bind_r (SwapNextPrev begin_iterator h) (\<lambda>h1.
        bind_r (it_dec h1 begin_iterator) (\<lambda>begin_iterator1.
        reverse_loop fuel h1 begin_iterator1 end_iterator))
      else Inr h)"

definition reverse :: "nat \<Rightarrow> 'a heap \<Rightarrow> s21_list \<Rightarrow> fault + 'a heap" where
  "reverse fuel h l =
     bind_r (begin_l h l) (\<lambda>begin_iterator.
     let end_iterator = end_l l in
     bind_r (reverse_loop fuel h begin_iterator end_iterator) (\<lambda>h1.
     SwapNextPrev (head_l l) h1))"

subsection \<open>unique\<close>

fun unique_loop ::
  "nat \<Rightarrow> 'a heap \<Rightarrow> s21_list \<Rightarrow> addr \<Rightarrow> fault + ('a heap \<times> s21_list)" where
  "unique_loop 0 h l it_last = Inl OutOfFuel"
| "unique_loop (Suc fuel) h l it_last =
     (if it_last \<noteq> end_l l then
        bind_r (it_inc h it_last) (\<lambda>it_next.
        if it_next = nullptr then Inr (h, l)
        else
          bind_r (it_deref h it_last) (\<lambda>a.
          bind_r (it_deref h it_next) (\<lambda>b.
          if a = b then
            bind_r (erase h l it_next) (\<lambda>(h1, l1). unique_loop fuel h1 l1 it_last)
          else
            bind_r (it_inc h it_last) (\<lambda>it_last1. unique_loop fuel h l it_last1))))
      else Inr (h, l))"

definition unique :: "nat \<Rightarrow> 'a heap \<Rightarrow> s21_list \<Rightarrow> fault + ('a heap \<times> s21_list)" where
  "unique fuel h l =
     (if \<not> empty_l l then bind_r (begin_l h l) (\<lambda>b. unique_loop fuel h l b)
      else Inr (h, l))"

subsection \<open>sort\<close>

text \<open>\<^verbatim>\<open>while (iShift < list_size / 2) { ++pivot_it; ++iShift; }\<close>\<close>

fun pivot_loop :: "nat \<Rightarrow> 'a heap \<Rightarrow> addr \<Rightarrow> size_type \<Rightarrow> size_type \<Rightarrow> fault + addr" where
  "pivot_loop 0 h pivot_it iShift list_size = Inl OutOfFuel"
| "pivot_loop (Suc fuel) h pivot_it iShift list_size =
     (if iShift < list_size div 2 then
        bind_r (it_inc h pivot_it) (\<lambda>pivot_it1.
        pivot_loop fuel h pivot_it1 (iShift + 1) list_size)
      else Inr pivot_it)"

text \<open>The partition loop \<^verbatim>\<open>while (tmp_left != tmp_right) { ... }\<close>.\<close>

fun partition_loop ::
  "nat \<Rightarrow> ('a::linorder) heap \<Rightarrow> 'a \<Rightarrow> addr \<Rightarrow> size_type \<Rightarrow> addr \<Rightarrow> addr
     \<Rightarrow> fault + ('a heap \<times> addr \<times> size_type \<times> addr)" where
  "partition_loop 0 h pivot swap_it iShift tmp_left tmp_right = Inl OutOfFuel"
| "partition_loop (Suc fuel) h pivot swap_it iShift tmp_left tmp_right =
     (if tmp_left \<noteq> tmp_right then
        bind_r (it_deref h tmp_left) (\<lambda>v.
        if v < pivot then
          bind_r (it_inc h swap_it) (\<lambda>swap_it1.
          bind_r (SwapValues tmp_left swap_it1 h) (\<lambda>h1.
          bind_r (it_inc h1 tmp_left) (\<lambda>tmp_left1.
          partition_loop fuel h1 pivot swap_it1 (iShift + 1) tmp_left1 tmp_right)))
        else if v = pivot then
          bind_r (it_dec h tmp_right) (\<lambda>tmp_right1.
          bind_r (SwapValues tmp_left tmp_right1 h) (\<lambda>h1.
          partition_loop fuel h1 pivot swap_it iShift tmp_left tmp_right1))
        else
          bind_r (it_inc h tmp_left) (\<lambda>tmp_left1.
          partition_loop fuel h pivot swap_it iShift tmp_left1 tmp_right))
      else Inr (h, swap_it, iShift, tmp_right))"

text \<open>
  \<^verbatim>\<open>while (tmp_right != right) { swap_it.node_->SwapValues(tmp_right.node_); ++swap_it;
  ++tmp_right; --next_step_right_size; }\<close>
\<close>

fun gather_loop ::
  "nat \<Rightarrow> 'a heap \<Rightarrow> addr \<Rightarrow> addr \<Rightarrow> addr \<Rightarrow> size_type
     \<Rightarrow> fault + ('a heap \<times> addr \<times> size_type)" where
  "gather_loop 0 h swap_it tmp_right right next_step_right_size = Inl OutOfFuel"
| "gather_loop (Suc fuel) h swap_it tmp_right right next_step_right_size =
     (if tmp_right \<noteq> right then
        bind_r (SwapValues swap_it tmp_right h) (\<lambda>h1.
        bind_r (it_inc h1 swap_it) (\<lambda>swap_it1.
        bind_r (it_inc h1 tmp_right) (\<lambda>tmp_right1.
        gather_loop fuel h1 swap_it1 tmp_right1 right (next_step_right_size - 1))))
      else Inr (h, swap_it, next_step_right_size))"

text \<open>
  The pivot cursor of a call \<^verbatim>\<open>quick_sort(left, right, list_size)\<close>:
  \<^verbatim>\<open>pivot_it = left; --pivot_it;\<close> and then the walk of \<open>pivot_loop\<close>.
\<close>

definition pivot_of :: "nat \<Rightarrow> 'a heap \<Rightarrow> addr \<Rightarrow> size_type \<Rightarrow> fault + addr" where
  "pivot_of fuel h left list_size =
     bind_r (it_dec h left) (\<lambda>pivot_it. pivot_loop fuel h pivot_it 0 list_size)"

fun quick_sort ::
  "nat \<Rightarrow> ('a::linorder) heap \<Rightarrow> addr \<Rightarrow> addr \<Rightarrow> size_type \<Rightarrow> fault + 'a heap" where
  "quick_sort 0 h left right list_size = Inl OutOfFuel"
| "quick_sort (Suc fuel) h left right list_size =
     (if left \<noteq> right \<and> list_size > 1 then
        bind_r (it_dec h left) (\<lambda>swap_it.
        bind_r (pivot_of fuel h left list_size) (\<lambda>pivot_it.
        bind_r (it_deref h pivot_it) (\<lambda>pivot.
        bind_r (SwapValues pivot_it right h) (\<lambda>h1.
        bind_r (partition_loop fuel h1 pivot swap_it 0 left right)
          (\<lambda>(h2, swap_it2, iShift, tmp_right).
        let next_step_left = swap_it2;
            next_step_left_size = iShift;
            next_step_right_size = list_size - iShift - 1 in
        bind_r (it_inc h2 swap_it2) (\<lambda>swap_it3.
        bind_r (gather_loop fuel h2 swap_it3 tmp_right right next_step_right_size)
          (\<lambda>(h3, swap_it4, next_step_right_size1).
        bind_r (SwapValues swap_it4 right h3) (\<lambda>h4.
        bind_r (it_inc h4 swap_it4) (\<lambda>swap_it5.
        let next_step_right = swap_it5 in
        bind_r (quick_sort fuel h4 left next_step_left next_step_left_size) (\<lambda>h5.
        quick_sort fuel h5 next_step_right right next_step_right_size1))))))))))
      else Inr h)"

text \<open>\<^verbatim>\<open>sort\<close>: \<^verbatim>\<open>quick_sort(begin(), --end(), size_)\<close>.\<close>

definition sort_l :: "nat \<Rightarrow> ('a::linorder) heap \<Rightarrow> s21_list \<Rightarrow> fault + 'a heap" where
  "sort_l fuel h l =
     bind_r (begin_l h l) (\<lambda>left.
     bind_r (it_dec h (end_l l)) (\<lambda>right.
     quick_sort fuel h left right (size_l l)))"

subsection \<open>insert_many_front\<close>

text \<open>
  \<^verbatim>\<open>(tempList.push_front(std::forward<Args>(args)), ...)\<close> is a fold over the comma
  operator: the calls run in the order of the argument pack. Each argument comes
  paired with the address that \<^verbatim>\<open>new\<close> returns for its node.
\<close>

fun push_front_pack ::
  "'a heap \<Rightarrow> s21_list \<Rightarrow> ('a \<times> addr) list \<Rightarrow> fault + ('a heap \<times> s21_list)" where
  "push_front_pack h l [] = Inr (h, l)"
| "push_front_pack h l ((v, p) # args) =
     bind_r (push_front h l v p) (\<lambda>(h1, l1). push_front_pack h1 l1 args)"

text \<open>
  \<^verbatim>\<open>list tempList; (tempList.push_front(args), ...); splice(begin(), tempList);\<close>
  and then the destructor of \<^verbatim>\<open>tempList\<close>. \<open>t\<close> is the address of the sentinel of
  \<^verbatim>\<open>tempList\<close> and \<open>d\<close> stands for \<^verbatim>\<open>value_type{}\<close>.
\<close>

definition insert_many_front ::
  "nat \<Rightarrow> 'a heap \<Rightarrow> s21_list \<Rightarrow> 'a \<Rightarrow> addr \<Rightarrow> ('a \<times> addr) list
     \<Rightarrow> fault + ('a heap \<times> s21_list)" where
  "insert_many_front fuel h l d t args =
     (let (h0, tempList) = list_ctor t d h in
      bind_r (push_front_pack h0 tempList args) (\<lambda>(h1, tempList1).
      bind_r (begin_l h1 l) (\<lambda>b.
      bind_r (splice_l h1 l b tempList1) (\<lambda>(h2, l2, tempList2).
      bind_r (list_dtor fuel h2 tempList2) (\<lambda>h3.
      Inr (h3, l2))))))"

section \<open>Abstraction and invariants\<close>

text \<open>The nodes met by following \<open>next_n\<close> from \<open>p\<close>, \<open>n\<close> of them.\<close>

fun walk :: "'a heap \<Rightarrow> addr \<Rightarrow> nat \<Rightarrow> addr list" where
  "walk h p 0 = []"
| "walk h p (Suc n) = p # walk h (next_n h p) n"

text \<open>The element nodes of a list, begin() first, and the values they hold.\<close>

definition nodes :: "'a heap \<Rightarrow> s21_list \<Rightarrow> addr list" where
  "nodes h l = walk h (next_n h (head_l l)) (unat (size_l l))"

definition elems :: "'a heap \<Rightarrow> s21_list \<Rightarrow> 'a list" where
  "elems h l = map (value_n h) (nodes h l)"

text \<open>Neighbours in the list of nodes are linked in both directions.\<close>

fun linked :: "'a heap \<Rightarrow> addr list \<Rightarrow> bool" where
  "linked h (x # y # zs) \<longleftrightarrow> next_n h x = y \<and> prev_n h y = x \<and> linked h (y # zs)"
| "linked h zs \<longleftrightarrow> True"

text \<open>
  \<open>ring h s ps\<close>: the sentinel \<open>s\<close> and the element nodes \<open>ps\<close> are live, pairwise
  different, and linked into one cycle \<open>s, ps, s\<close>.
\<close>

definition ring :: "'a heap \<Rightarrow> addr \<Rightarrow> addr list \<Rightarrow> bool" where
  "ring h s ps \<longleftrightarrow>
     distinct (s # ps) \<and> list_all (valid h) (s # ps) \<and> linked h (s # ps @ [s])"

definition wf_list :: "'a heap \<Rightarrow> s21_list \<Rightarrow> bool" where
  "wf_list h l \<longleftrightarrow> ring h (head_l l) (nodes h l)"

text \<open>The list object \<open>l\<close> owns exactly the element nodes \<open>ps\<close>, in this order.\<close>

definition lst :: "'a heap \<Rightarrow> s21_list \<Rightarrow> addr list \<Rightarrow> bool" where
  "lst h l ps \<longleftrightarrow> ring h (head_l l) ps \<and> unat (size_l l) = length ps"

section \<open>Example states\<close>

text \<open>A store without any live node.\<close>

definition heap0 :: "'a \<Rightarrow> 'a heap" where
  "heap0 d = \<lparr>alloc = {}, next_n = (\<lambda>_. nullptr), prev_n = (\<lambda>_. nullptr), value_n = (\<lambda>_. d)\<rparr>"

text \<open>\<^verbatim>\<open>push_back\<close> of each item in turn, each with the address of its new node.\<close>

fun push_back_pack ::
  "'a heap \<Rightarrow> s21_list \<Rightarrow> ('a \<times> addr) list \<Rightarrow> fault + ('a heap \<times> s21_list)" where
  "push_back_pack h l [] = Inr (h, l)"
| "push_back_pack h l ((v, p) # args) =
     bind_r (push_back h l v p) (\<lambda>(h1, l1). push_back_pack h1 l1 args)"

text \<open>
  The initializer-list constructor:
  \<^verbatim>\<open>list(std::initializer_list<value_type> const &items) : list() { for (auto item : items) push_back(item); }\<close>
\<close>

definition list_init :: "addr \<Rightarrow> 'a \<Rightarrow> ('a \<times> addr) list \<Rightarrow> 'a heap \<Rightarrow> fault + ('a heap \<times> s21_list)" where
  "list_init p d items h = (let (h0, l) = list_ctor p d h in push_back_pack h0 l items)"

text \<open>
  The example states below are written out field by field; the lemmas named
  \<open>_built\<close> show that the initializer-list constructor produces them from the empty
  store, with the sentinel holding 0 for \<^verbatim>\<open>int{}\<close>.
\<close>

text \<open>The list [0].\<close>

definition exz_h :: "int heap" where
  "exz_h = \<lparr>alloc = {1, 2},
     next_n = (\<lambda>_. nullptr)(1 := 2, 2 := 1),
     prev_n = (\<lambda>_. nullptr)(1 := 2, 2 := 1),
     value_n = (\<lambda>_. 0)(1 := 0, 2 := 0)\<rparr>"

definition exz_l :: s21_list where
  "exz_l = \<lparr>head_l = 1, size_l = 1\<rparr>"

text \<open>The list [10, 20].\<close>

definition exp_h :: "int heap" where
  "exp_h = \<lparr>alloc = {1, 2, 3},
     next_n = (\<lambda>_. nullptr)(1 := 2, 2 := 3, 3 := 1),
     prev_n = (\<lambda>_. nullptr)(1 := 3, 2 := 1, 3 := 2),
     value_n = (\<lambda>_. 0)(1 := 0, 2 := 10, 3 := 20)\<rparr>"

definition exp_l :: s21_list where
  "exp_l = \<lparr>head_l = 1, size_l = 2\<rparr>"

text \<open>The lists [1, 2] and [3, 4].\<close>

definition ex2_h :: "int heap" where
  "ex2_h = \<lparr>alloc = {1, 2, 3, 4, 5, 6},
     next_n = (\<lambda>_. nullptr)(1 := 2, 2 := 3, 3 := 1, 4 := 5, 5 := 6, 6 := 4),
     prev_n = (\<lambda>_. nullptr)(1 := 3, 2 := 1, 3 := 2, 4 := 6, 5 := 4, 6 := 5),
     value_n = (\<lambda>_. 0)(1 := 0, 2 := 1, 3 := 2, 4 := 0, 5 := 3, 6 := 4)\<rparr>"

definition ex2_a :: s21_list where
  "ex2_a = \<lparr>head_l = 1, size_l = 2\<rparr>"

definition ex2_b :: s21_list where
  "ex2_b = \<lparr>head_l = 4, size_l = 2\<rparr>"

text \<open>The lists [1, 4, 7] and [2, 4, 9].\<close>

definition exm_h :: "int heap" where
  "exm_h = \<lparr>alloc = {1, 2, 3, 4, 5, 6, 7, 8},
     next_n = (\<lambda>_. nullptr)(1 := 2, 2 := 3, 3 := 4, 4 := 1, 5 := 6, 6 := 7, 7 := 8, 8 := 5),
     prev_n = (\<lambda>_. nullptr)(1 := 4, 2 := 1, 3 := 2, 4 := 3, 5 := 8, 6 := 5, 7 := 6, 8 := 7),
     value_n = (\<lambda>_. 0)(1 := 0, 2 := 1, 3 := 4, 4 := 7, 5 := 0, 6 := 2, 7 := 4, 8 := 9)\<rparr>"

definition exm_a :: s21_list where
  "exm_a = \<lparr>head_l = 1, size_l = 3\<rparr>"

definition exm_b :: s21_list where
  "exm_b = \<lparr>head_l = 5, size_l = 3\<rparr>"

text \<open>The list [5, 3, 8, 1].\<close>

definition exs_h :: "int heap" where
  "exs_h = \<lparr>alloc = {1, 2, 3, 4, 5},
     next_n = (\<lambda>_. nullptr)(1 := 2, 2 := 3, 3 := 4, 4 := 5, 5 := 1),
     prev_n = (\<lambda>_. nullptr)(1 := 5, 2 := 1, 3 := 2, 4 := 3, 5 := 4),
     value_n = (\<lambda>_. 0)(1 := 0, 2 := 5, 3 := 3, 4 := 8, 5 := 1)\<rparr>"

definition exs_l :: s21_list where
  "exs_l = \<lparr>head_l = 1, size_l = 4\<rparr>"

text \<open>
  The order in which the loop of \<^verbatim>\<open>merge\<close> followed by its closing \<^verbatim>\<open>splice\<close> leaves the
  nodes \<open>ts\<close> of \<^verbatim>\<open>this\<close> and \<open>os\<close> of \<^verbatim>\<open>other\<close>, given the values \<open>v\<close> they hold: a
  node of \<^verbatim>\<open>other\<close> goes first only when its value is strictly less.
\<close>

fun merge_nodes :: "(addr \<Rightarrow> 'a::linorder) \<Rightarrow> addr list \<Rightarrow> addr list \<Rightarrow> addr list" where
  "merge_nodes v [] os = os"
| "merge_nodes v ts [] = ts"
| "merge_nodes v (t # ts) (u # os) =
     (if v u < v t then u # merge_nodes v (t # ts) os else t # merge_nodes v ts (u # os))"

text \<open>Two list objects with their element nodes, sharing no node.\<close>

definition two :: "'a heap \<Rightarrow> s21_list \<Rightarrow> s21_list \<Rightarrow> addr list \<Rightarrow> addr list \<Rightarrow> bool" where
  "two h this other ps qs \<longleftrightarrow>
     lst h this ps \<and> lst h other qs \<and> set (head_l this # ps) \<inter> set (head_l other # qs) = {}"

section \<open>Positions in the ring\<close>

text \<open>The value held by the node at position \<open>i\<close> of the node list \<open>cs\<close>.\<close>

definition vat :: "'a heap \<Rightarrow> addr list \<Rightarrow> nat \<Rightarrow> 'a" where
  "vat h cs i = value_n h (cs ! i)"

text \<open>Two stores with the same live nodes and the same links; only values may differ.\<close>

definition same_links :: "'a heap \<Rightarrow> 'a heap \<Rightarrow> bool" where
  "same_links h' h \<longleftrightarrow> alloc h' = alloc h \<and> next_n h' = next_n h \<and> prev_n h' = prev_n h"

text \<open>
  What a call of \<^verbatim>\<open>quick_sort\<close> on the positions \<open>l..r\<close> of \<open>cs\<close> may change: it permutes the
  values held at these positions and leaves every link and every other value alone.
\<close>

definition keeps :: "'a heap \<Rightarrow> 'a heap \<Rightarrow> addr list \<Rightarrow> nat \<Rightarrow> nat \<Rightarrow> bool" where
  "keeps h' h cs l r \<longleftrightarrow>
     same_links h' h \<and>
     image_mset (vat h' cs) (mset_set {l..r}) = image_mset (vat h cs) (mset_set {l..r}) \<and>
     (\<forall>k. k < length cs \<and> k \<notin> {l..r} \<longrightarrow> vat h' cs k = vat h cs k) \<and>
     (\<forall>z. z \<notin> set cs \<longrightarrow> value_n h' z = value_n h z)"

text \<open>
  The state of the partition loop of \<^verbatim>\<open>quick_sort\<close> with pivot value \<open>p\<close>: the positions
  \<open>l..sw\<close> hold smaller values, those after \<open>sw\<close> and before \<open>lf\<close> larger ones, those from
  \<open>rt\<close> to \<open>r\<close> values equal to the pivot; \<open>lf\<close> up to \<open>rt\<close> is still to be examined.
\<close>

definition zones ::
  "('a::linorder) heap \<Rightarrow> addr list \<Rightarrow> 'a \<Rightarrow> nat \<Rightarrow> nat \<Rightarrow> nat \<Rightarrow> nat \<Rightarrow> nat \<Rightarrow> bool" where
  "zones h cs p l sw lf rt r \<longleftrightarrow>
     l \<le> Suc sw \<and> sw < lf \<and> lf \<le> rt \<and> rt \<le> r \<and>
     (\<forall>i. l \<le> i \<and> i \<le> sw \<longrightarrow> vat h cs i < p) \<and>
     (\<forall>i. sw < i \<and> i < lf \<longrightarrow> p < vat h cs i) \<and>
     (\<forall>i. rt \<le> i \<and> i \<le> r \<longrightarrow> vat h cs i = p)"

section \<open>Basic facts\<close>

lemma bind_r_Inr [simp]: "bind_r (Inr x) f = f x"
  by (simp add: bind_r_def)

lemma bind_r_Inl [simp]: "bind_r (Inl e) f = Inl e"
  by (simp add: bind_r_def)

section \<open>Chains and rings\<close>

subsection \<open>Chains\<close>

lemma linked_append_iff:
  "linked h (xs @ y # ys) \<longleftrightarrow> linked h (xs @ [y]) \<and> linked h (y # ys)"
  by (induction h xs rule: linked.induct) auto

lemma linked_snoc2:
  "linked h (xs @ [x, y]) \<longleftrightarrow> linked h (xs @ [x]) \<and> next_n h x = y \<and> prev_n h y = x"
  using linked_append_iff [of h xs x "[y]"] by auto

lemma linked_frame:
  assumes "\<And>x. x \<in> set (butlast xs) \<Longrightarrow> next_n h' x = next_n h x"
    and "\<And>x. x \<in> set (tl xs) \<Longrightarrow> prev_n h' x = prev_n h x"
  shows "linked h' xs = linked h xs"
  using assms by (induction h xs rule: linked.induct) auto

lemma linked_nth:
  "linked h xs \<Longrightarrow> Suc i < length xs \<Longrightarrow>
     next_n h (xs ! i) = xs ! Suc i \<and> prev_n h (xs ! Suc i) = xs ! i"
proof (induction h xs arbitrary: i rule: linked.induct)
  case (1 h x y zs)
  then show ?case by (cases i) auto
qed auto

lemma linked_rev:
  assumes "\<And>x. x \<in> set xs \<Longrightarrow> next_n h' x = prev_n h x \<and> prev_n h' x = next_n h x"
  shows "linked h' (rev xs) = linked h xs"
  using assms
proof (induction h xs rule: linked.induct)
  case (1 h x y zs)
  have "linked h' (rev (y # zs)) = linked h (y # zs)"
    using 1 by simp
  moreover have "linked h' (rev (x # y # zs)) \<longleftrightarrow>
      linked h' (rev (y # zs)) \<and> next_n h' y = x \<and> prev_n h' x = y"
    using linked_snoc2 [of h' "rev zs" y x] by simp
  ultimately show ?case using 1(2) by auto
qed auto

lemma walk_chain:
  "linked h (x # ps @ [y]) \<Longrightarrow> walk h (next_n h x) (length ps) = ps"
  by (induction ps arbitrary: x) auto

lemma length_walk [simp]: "length (walk h p n) = n"
  by (induction n arbitrary: p) auto

subsection \<open>Rings\<close>

lemma distinct_addr_length:
  assumes "distinct (xs :: addr list)" and "nullptr \<notin> set xs"
  shows "length xs < 2 ^ 64"
proof -
  have "distinct (nullptr # xs)" using assms by simp
  then have "length (nullptr # xs) = card (set (nullptr # xs))"
    by (rule distinct_card [symmetric])
  also have "\<dots> \<le> card (UNIV :: addr set)"
    by (rule card_mono) auto
  also have "\<dots> = 2 ^ 64" by (simp add: card_word)
  finally show ?thesis by simp
qed

lemma ring_valid: "ring h s ps \<Longrightarrow> p \<in> set (s # ps) \<Longrightarrow> valid h p"
  by (auto simp: ring_def list_all_iff)

lemma ring_length: "ring h s ps \<Longrightarrow> Suc (length ps) < 2 ^ 64"
proof -
  assume r: "ring h s ps"
  then have "nullptr \<notin> set (s # ps)"
    using ring_valid [OF r] by (auto simp: valid_def)
  with r distinct_addr_length [of "s # ps"] show ?thesis
    by (simp add: ring_def)
qed

lemma ring_walk: "ring h s ps \<Longrightarrow> walk h (next_n h s) (length ps) = ps"
  using walk_chain [of h s ps s] by (simp add: ring_def)

lemma lst_nodes: "lst h l ps \<Longrightarrow> nodes h l = ps"
  by (simp add: lst_def nodes_def ring_walk)

lemma wf_list_lst: "wf_list h l \<longleftrightarrow> lst h l (nodes h l)"
  by (simp add: wf_list_def lst_def nodes_def)

lemma wf_list_iff: "wf_list h l \<longleftrightarrow> (\<exists>ps. lst h l ps)"
  using lst_nodes wf_list_lst by metis

lemma ring_frame:
  assumes "ring h s ps"
    and "\<And>x. x \<in> set (s # ps) \<Longrightarrow>
           next_n h' x = next_n h x \<and> prev_n h' x = prev_n h x \<and> valid h' x"
  shows "ring h' s ps"
proof -
  have "linked h' (s # ps @ [s]) = linked h (s # ps @ [s])"
    by (rule linked_frame) (use assms(2) in \<open>auto simp: butlast_append\<close>)
  then show ?thesis
    using assms by (auto simp: ring_def list_all_iff)
qed

text \<open>Links of a ring node, by position.\<close>

lemma ring_next_split:
  "ring h s (xs @ ys) \<Longrightarrow> next_n h (last (s # xs)) = hd (ys @ [s])"
proof -
  assume "ring h s (xs @ ys)"
  then have c: "linked h ((s # xs) @ ys @ [s])" by (simp add: ring_def)
  obtain zs z where A: "s # xs = zs @ [z]"
    by (metis append_butlast_last_id list.distinct(1))
  obtain y ws where B: "ys @ [s] = y # ws"
    by (cases "ys @ [s]") auto
  from c have "linked h (zs @ [z, y] @ ws)" using A B by (metis append.assoc append_Cons append_Nil)
  then have "linked h ((zs @ [z]) @ y # ws)" by simp
  then have "linked h (zs @ [z, y])" using linked_append_iff [of h "zs @ [z]" y ws] by simp
  then have "next_n h z = y" using linked_snoc2 by blast
  then show ?thesis using A B by (metis last_snoc list.sel(1))
qed

lemma ring_prev_split:
  "ring h s (xs @ ys) \<Longrightarrow> prev_n h (hd (ys @ [s])) = last (s # xs)"
proof -
  assume "ring h s (xs @ ys)"
  then have c: "linked h ((s # xs) @ ys @ [s])" by (simp add: ring_def)
  obtain zs z where A: "s # xs = zs @ [z]"
    by (metis append_butlast_last_id list.distinct(1))
  obtain y ws where B: "ys @ [s] = y # ws"
    by (cases "ys @ [s]") auto
  from c have "linked h (zs @ [z, y] @ ws)" using A B by (metis append.assoc append_Cons append_Nil)
  then have "linked h ((zs @ [z]) @ y # ws)" by simp
  then have "linked h (zs @ [z, y])" using linked_append_iff [of h "zs @ [z]" y ws] by simp
  then have "prev_n h y = z" using linked_snoc2 by blast
  then show ?thesis using A B by (metis last_snoc list.sel(1))
qed

lemma linked_link:
  "linked h (A @ B) \<longleftrightarrow>
     linked h A \<and> linked h B \<and>
     (A \<noteq> [] \<and> B \<noteq> [] \<longrightarrow> next_n h (last A) = hd B \<and> prev_n h (hd B) = last A)"
proof (induction A)
  case Nil
  then show ?case by simp
next
  case (Cons a A)
  show ?case
  proof (cases A)
    case Nil
    then show ?thesis by (cases B) auto
  next
    case (Cons b A')
    with Cons.IH show ?thesis by auto
  qed
qed

lemma valid_upd [simp]:
  "valid (h\<lparr>next_n := f\<rparr>) p = valid h p"
  "valid (h\<lparr>prev_n := g\<rparr>) p = valid h p"
  "valid (h\<lparr>value_n := k\<rparr>) p = valid h p"
  by (simp_all add: valid_def)

lemma AttachPrev_eq:
  assumes "valid h this" "valid h p" "valid h (prev_n h this)"
  shows "AttachPrev this p h =
    Inr (h\<lparr>next_n := (next_n h)(p := this, prev_n h this := p),
          prev_n := (prev_n h)(p := prev_n h this, this := p)\<rparr>)"
  using assms
  by (simp add: AttachPrev_def rd_prev_def wr_next_def wr_prev_def)

lemma UnAttach_eq:
  assumes "valid h this" "valid h (prev_n h this)" "valid h (next_n h this)"
  shows "UnAttach this h =
    Inr (h\<lparr>next_n := (next_n h)(prev_n h this := next_n h this, this := this),
          prev_n := (prev_n h)(next_n h this := prev_n h this, this := this)\<rparr>)"
  using assms
  by (simp add: UnAttach_def rd_prev_def rd_next_def wr_next_def wr_prev_def)

lemma ring_split_facts:
  assumes "ring h s (xs @ ys)"
  shows "valid h (hd (ys @ [s]))" "valid h (last (s # xs))"
    "hd (ys @ [s]) \<in> set (s # ys)" "last (s # xs) \<in> set (s # xs)"
    "hd (ys @ [s]) \<notin> set xs" "last (s # xs) \<notin> set ys"
proof -
  show a: "hd (ys @ [s]) \<in> set (s # ys)" by (cases ys) auto
  show b: "last (s # xs) \<in> set (s # xs)" by (rule last_in_set) simp
  from a show "valid h (hd (ys @ [s]))" using ring_valid [OF assms] by auto
  from b show "valid h (last (s # xs))" using ring_valid [OF assms] by auto
  from a assms show "hd (ys @ [s]) \<notin> set xs" by (auto simp: ring_def)
  from b assms show "last (s # xs) \<notin> set ys" by (auto simp: ring_def)
qed

lemma linked_insert:
  assumes c: "linked h (A @ B)" and ne: "A \<noteq> []" "B \<noteq> []"
    and d: "distinct A" "distinct B" "hd B \<notin> set (tl A)" "last A \<notin> set (butlast B)"
    and p: "p \<notin> set A" "p \<notin> set B"
    and n: "next_n h' = (next_n h)(p := hd B, last A := p)"
    and pr: "prev_n h' = (prev_n h)(p := last A, hd B := p)"
  shows "linked h' (A @ p # B)"
proof -
  have cA: "linked h A" and cB: "linked h B" using c linked_link by blast+
  have lastA: "last A \<notin> set (butlast A)"
    using d(1) ne(1) by (metis append_butlast_last_id distinct_append disjoint_iff list.set_intros(1))
  have hdB: "hd B \<notin> set (tl B)"
    using d(2) ne(2) by (metis distinct.simps(2) list.collapse)
  have sub: "\<And>z. z \<in> set (tl A) \<Longrightarrow> z \<in> set A" "\<And>z. z \<in> set (butlast A) \<Longrightarrow> z \<in> set A"
    "\<And>z. z \<in> set (tl B) \<Longrightarrow> z \<in> set B" "\<And>z. z \<in> set (butlast B) \<Longrightarrow> z \<in> set B"
    using ne by (auto dest: in_set_butlastD list.set_sel(2))
  have "linked h' A = linked h A"
    by (rule linked_frame) (use n pr p d lastA sub in \<open>auto\<close>)
  moreover have "linked h' B = linked h B"
    by (rule linked_frame) (use n pr p d hdB sub in \<open>auto\<close>)
  moreover have "next_n h' (last A) = p" "prev_n h' p = last A" "next_n h' p = hd B" "prev_n h' (hd B) = p"
    using n pr p ne by auto
  ultimately have "linked h' A" "linked h' (p # B)"
    using cA cB ne by (auto simp: linked_link [of h' "[p]" B, simplified])
  then show ?thesis
    using linked_link [of h' A "p # B"] \<open>next_n h' (last A) = p\<close> \<open>prev_n h' p = last A\<close> by simp
qed

lemma linked_remove:
  assumes c: "linked h (A @ x # B)" and ne: "A \<noteq> []" "B \<noteq> []"
    and d: "distinct A" "distinct B" "hd B \<notin> set (tl A)" "last A \<notin> set (butlast B)"
    and p: "x \<notin> set A" "x \<notin> set B"
    and n: "next_n h' = (next_n h)(last A := hd B, x := x)"
    and pr: "prev_n h' = (prev_n h)(hd B := last A, x := x)"
  shows "linked h' (A @ B)"
proof -
  have cA: "linked h A" and cB: "linked h B"
    using c linked_link [of h A "x # B"] linked_link [of h "[x]" B] by auto
  have lastA: "last A \<notin> set (butlast A)"
    using d(1) ne(1) by (metis append_butlast_last_id distinct_append disjoint_iff list.set_intros(1))
  have hdB: "hd B \<notin> set (tl B)"
    using d(2) ne(2) by (metis distinct.simps(2) list.collapse)
  have sub: "\<And>z. z \<in> set (tl A) \<Longrightarrow> z \<in> set A" "\<And>z. z \<in> set (butlast A) \<Longrightarrow> z \<in> set A"
    "\<And>z. z \<in> set (tl B) \<Longrightarrow> z \<in> set B" "\<And>z. z \<in> set (butlast B) \<Longrightarrow> z \<in> set B"
    using ne by (auto dest: in_set_butlastD list.set_sel(2))
  have "linked h' A = linked h A"
    by (rule linked_frame) (use n pr p d lastA sub in \<open>auto\<close>)
  moreover have "linked h' B = linked h B"
    by (rule linked_frame) (use n pr p d hdB sub in \<open>auto\<close>)
  moreover have "next_n h' (last A) = hd B" "prev_n h' (hd B) = last A"
    using n pr p ne by auto
  ultimately show ?thesis
    using cA cB linked_link [of h' A B] by simp
qed

lemma AttachPrev_ring:
  assumes r: "ring h s (xs @ ys)" and v: "valid h p" and f: "p \<notin> set (s # xs @ ys)"
  shows "\<exists>h'. AttachPrev (hd (ys @ [s])) p h = Inr h' \<and> ring h' s (xs @ p # ys) \<and>
           alloc h' = alloc h \<and> value_n h' = value_n h \<and>
           next_n h' = (next_n h)(p := hd (ys @ [s]), last (s # xs) := p) \<and>
           prev_n h' = (prev_n h)(p := last (s # xs), hd (ys @ [s]) := p)"
proof -
  let ?pos = "hd (ys @ [s])" and ?q = "last (s # xs)"
  let ?h' = "h\<lparr>next_n := (next_n h)(p := ?pos, ?q := p),
               prev_n := (prev_n h)(p := ?q, ?pos := p)\<rparr>"
  note sf = ring_split_facts [OF r]
  have pq: "prev_n h ?pos = ?q" by (rule ring_prev_split [OF r])
  have eq: "AttachPrev ?pos p h = Inr ?h'"
    using AttachPrev_eq [of h ?pos p] sf(1,2) v pq by simp
  have d: "distinct (s # xs @ ys)" using r by (simp add: ring_def)
  have "linked h ((s # xs) @ (ys @ [s]))" using r by (simp add: ring_def)
  then have "linked ?h' ((s # xs) @ p # (ys @ [s]))"
  proof (rule linked_insert)
    show "hd (ys @ [s]) \<notin> set (tl (s # xs))" using sf(5) by simp
    show "last (s # xs) \<notin> set (butlast (ys @ [s]))" using sf(6) by (simp add: butlast_append)
  qed (use d f in \<open>auto\<close>)
  moreover have "list_all (valid ?h') (s # xs @ p # ys)"
    using r v by (auto simp: ring_def list_all_iff)
  ultimately have "ring ?h' s (xs @ p # ys)"
    using d f by (auto simp: ring_def)
  with eq show ?thesis by auto
qed

lemma UnAttach_ring:
  assumes r: "ring h s (xs @ x # ys)"
  shows "\<exists>h'. UnAttach x h = Inr h' \<and> ring h' s (xs @ ys) \<and>
           alloc h' = alloc h \<and> value_n h' = value_n h \<and>
           next_n h' = (next_n h)(last (s # xs) := hd (ys @ [s]), x := x) \<and>
           prev_n h' = (prev_n h)(hd (ys @ [s]) := last (s # xs), x := x)"
proof -
  let ?n = "hd (ys @ [s])" and ?q = "last (s # xs)"
  let ?h' = "h\<lparr>next_n := (next_n h)(?q := ?n, x := x),
               prev_n := (prev_n h)(?n := ?q, x := x)\<rparr>"
  have d: "distinct (s # xs @ x # ys)" using r by (simp add: ring_def)
  have px: "prev_n h x = ?q" using ring_prev_split [OF r] by simp
  have nx: "next_n h x = ?n"
    using ring_next_split [of h s "xs @ [x]" ys] r by simp
  have vx: "valid h x" using ring_valid [OF r] by simp
  have qin: "?q \<in> set (s # xs)" by (rule last_in_set) simp
  have nin: "?n \<in> set (s # ys)" by (cases ys) auto
  have vq: "valid h ?q" using ring_valid [OF r] qin by auto
  have vn: "valid h ?n" using ring_valid [OF r] nin by auto
  have eq: "UnAttach x h = Inr ?h'"
    using UnAttach_eq [of h x] vx vq vn px nx by simp
  have "linked h ((s # xs) @ x # (ys @ [s]))" using r by (simp add: ring_def)
  then have "linked ?h' ((s # xs) @ (ys @ [s]))"
  proof (rule linked_remove)
    show "hd (ys @ [s]) \<notin> set (tl (s # xs))" using nin d by auto
    show "last (s # xs) \<notin> set (butlast (ys @ [s]))" using qin d by (auto simp: butlast_append)
  qed (use d in \<open>auto\<close>)
  moreover have "list_all (valid ?h') (s # xs @ ys)"
    using r by (auto simp: ring_def list_all_iff)
  ultimately have "ring ?h' s (xs @ ys)"
    using d by (auto simp: ring_def)
  with eq show ?thesis by auto
qed

lemma valid_alloc_cong: "alloc h' = alloc h \<Longrightarrow> valid h' = valid h"
  by (simp add: valid_def fun_eq_iff)

lemma lst_head_size:
  "lst h l ps \<Longrightarrow> head_l l' = head_l l \<Longrightarrow> unat (size_l l') = length ps \<Longrightarrow> lst h l' ps"
  by (simp add: lst_def)

lemma unat_add_len:
  "unat (w :: size_type) = n \<Longrightarrow> unat (v :: size_type) = m \<Longrightarrow> n + m < 2 ^ 64 \<Longrightarrow>
     unat (w + v) = n + m"
  by (simp add: unat_word_ariths(1))

lemma unat_succ_len:
  "unat (w :: size_type) = n \<Longrightarrow> Suc n < 2 ^ 64 \<Longrightarrow> unat (w + 1) = Suc n"
  using unat_add_len [of w n 1 1] by simp

lemma unat_pred_len:
  "unat (w :: size_type) = Suc n \<Longrightarrow> unat (w - 1) = n"
  by (metis diff_Suc_1 of_nat_unat semiring_char_0_class.of_nat_neq_0
    unat_minus_one unsigned_0)

lemma insert_l_lst:
  assumes l: "lst h l (xs @ ys)" and f: "p \<notin> alloc h" "p \<noteq> nullptr"
  shows "\<exists>h'. insert_l h l (hd (ys @ [head_l l])) v p = Inr (h', l\<lparr>size_l := size_l l + 1\<rparr>, p) \<and>
           lst h' (l\<lparr>size_l := size_l l + 1\<rparr>) (xs @ p # ys) \<and>
           alloc h' = insert p (alloc h) \<and> value_n h' = (value_n h)(p := v) \<and>
           next_n h' = (next_n h)(p := hd (ys @ [head_l l]), last (head_l l # xs) := p) \<and>
           prev_n h' = (prev_n h)(p := last (head_l l # xs), hd (ys @ [head_l l]) := p)"
proof -
  let ?s = "head_l l"
  let ?h0 = "ListNode_value p v h"
  have r: "ring h ?s (xs @ ys)" using l by (simp add: lst_def)
  have pn: "p \<notin> set (?s # xs @ ys)"
    using ring_valid [OF r] f by (auto simp: valid_def)
  have r0: "ring ?h0 ?s (xs @ ys)"
    by (rule ring_frame [OF r]) (use pn ring_valid [OF r] in \<open>auto simp: ListNode_value_def valid_def\<close>)
  have v0: "valid ?h0 p" using f by (simp add: ListNode_value_def valid_def)
  from AttachPrev_ring [OF r0 v0 pn] obtain h' where
    a: "AttachPrev (hd (ys @ [?s])) p ?h0 = Inr h'" and r': "ring h' ?s (xs @ p # ys)"
    and al: "alloc h' = alloc ?h0" and va: "value_n h' = value_n ?h0"
    and nx: "next_n h' = (next_n ?h0)(p := hd (ys @ [?s]), last (?s # xs) := p)"
    and pr: "prev_n h' = (prev_n ?h0)(p := last (?s # xs), hd (ys @ [?s]) := p)"
    by blast
  have sz: "unat (size_l l + 1) = length (xs @ p # ys)"
    using unat_succ_len [of "size_l l" "length (xs @ ys)"] ring_length [OF r'] l
    by (simp add: lst_def)
  have "lst h' (l\<lparr>size_l := size_l l + 1\<rparr>) (xs @ p # ys)"
    using r' sz by (simp add: lst_def)
  moreover have "insert_l h l (hd (ys @ [?s])) v p = Inr (h', l\<lparr>size_l := size_l l + 1\<rparr>, p)"
    using a by (simp add: insert_l_def)
  ultimately show ?thesis
    using al va nx pr by (auto simp: ListNode_value_def fun_eq_iff)
qed

lemma erase_lst:
  assumes l: "lst h l (xs @ x # ys)"
  shows "\<exists>h'. erase h l x = Inr (h', l\<lparr>size_l := size_l l - 1\<rparr>) \<and>
           lst h' (l\<lparr>size_l := size_l l - 1\<rparr>) (xs @ ys) \<and>
           alloc h' = alloc h - {x} \<and> value_n h' = value_n h \<and>
           next_n h' = (next_n h)(last (head_l l # xs) := hd (ys @ [head_l l]), x := x) \<and>
           prev_n h' = (prev_n h)(hd (ys @ [head_l l]) := last (head_l l # xs), x := x)"
proof -
  let ?s = "head_l l"
  have r: "ring h ?s (xs @ x # ys)" using l by (simp add: lst_def)
  have d: "distinct (?s # xs @ x # ys)" using r by (simp add: ring_def)
  have vx: "valid h x" using ring_valid [OF r] by simp
  from UnAttach_ring [OF r] obtain h1 where
    u: "UnAttach x h = Inr h1" and r1: "ring h1 ?s (xs @ ys)"
    and al: "alloc h1 = alloc h" and va: "value_n h1 = value_n h"
    and nx: "next_n h1 = (next_n h)(last (?s # xs) := hd (ys @ [?s]), x := x)"
    and pr: "prev_n h1 = (prev_n h)(hd (ys @ [?s]) := last (?s # xs), x := x)"
    by blast
  let ?h2 = "h1\<lparr>alloc := alloc h1 - {x}\<rparr>"
  have del: "delete_node x h1 = Inr ?h2"
    using vx al by (simp add: delete_node_def valid_def)
  have r2: "ring ?h2 ?s (xs @ ys)"
    by (rule ring_frame [OF r1]) (use d ring_valid [OF r1] in \<open>auto simp: valid_def\<close>)
  have sz: "unat (size_l l - 1) = length (xs @ ys)"
    using unat_pred_len [of "size_l l" "length (xs @ ys)"] l by (simp add: lst_def)
  have "lst ?h2 (l\<lparr>size_l := size_l l - 1\<rparr>) (xs @ ys)"
    using r2 sz by (simp add: lst_def)
  moreover have "erase h l x = Inr (?h2, l\<lparr>size_l := size_l l - 1\<rparr>)"
    using u del d by (auto simp: erase_def end_l_def)
  ultimately show ?thesis
    using al va nx pr by auto
qed

lemma last_notin_butlast: "distinct A \<Longrightarrow> A \<noteq> [] \<Longrightarrow> last A \<notin> set (butlast A)"
  by (metis append_butlast_last_id distinct_append disjoint_iff list.set_intros(1))

lemma hd_notin_tl: "distinct A \<Longrightarrow> A \<noteq> [] \<Longrightarrow> hd A \<notin> set (tl A)"
  by (metis distinct.simps(2) list.collapse)

lemma linked_frame_mid:
  assumes "linked h Q" "distinct Q"
    and n: "\<And>z. z \<in> set Q \<Longrightarrow> z \<noteq> last Q \<Longrightarrow> next_n h' z = next_n h z"
    and p: "\<And>z. z \<in> set Q \<Longrightarrow> z \<noteq> hd Q \<Longrightarrow> prev_n h' z = prev_n h z"
  shows "linked h' Q"
proof (cases "Q = []")
  case True
  then show ?thesis by simp
next
  case False
  have "linked h' Q = linked h Q"
  proof (rule linked_frame)
    fix x assume "x \<in> set (butlast Q)"
    then have "x \<in> set Q" "x \<noteq> last Q"
      using last_notin_butlast [OF assms(2) False] by (auto dest: in_set_butlastD)
    then show "next_n h' x = next_n h x" by (rule n)
  next
    fix x assume "x \<in> set (tl Q)"
    then have "x \<in> set Q" "x \<noteq> hd Q"
      using hd_notin_tl [OF assms(2) False] False by (auto dest: list.set_sel(2))
    then show "prev_n h' x = prev_n h x" by (rule p)
  qed
  with assms(1) show ?thesis by simp
qed

lemma linked_splice:
  assumes c: "linked h (A @ B)" and cq: "linked h Q"
    and ne: "A \<noteq> []" "B \<noteq> []" "Q \<noteq> []"
    and d: "distinct A" "distinct B" "distinct Q" "hd B \<notin> set (tl A)" "last A \<notin> set (butlast B)"
      "set Q \<inter> set A = {}" "set Q \<inter> set B = {}" "s2 \<notin> set Q"
    and n: "next_n h' = (next_n h)(last Q := hd B, last A := hd Q, s2 := z1)"
    and pr: "prev_n h' = (prev_n h)(hd Q := last A, hd B := last Q, s2 := z2)"
    and s2: "s2 \<notin> set A" "s2 \<notin> set B"
  shows "linked h' (A @ Q @ B)"
proof -
  have cA: "linked h A" and cB: "linked h B" using c linked_link by blast+
  have ends: "last A \<in> set A" "hd B \<in> set B" "hd Q \<in> set Q" "last Q \<in> set Q"
    using ne by auto
  have dj: "\<And>z. z \<in> set Q \<Longrightarrow> z \<notin> set A" "\<And>z. z \<in> set Q \<Longrightarrow> z \<notin> set B"
    using d(6,7) by auto
  have ne2: "last A \<noteq> s2" "last A \<noteq> last Q" "hd Q \<noteq> hd B" "hd Q \<noteq> s2"
    "last Q \<noteq> s2" "hd B \<noteq> s2"
    using ends s2 dj d(8) by metis+
  have A': "linked h' A"
  proof (rule linked_frame_mid [OF cA d(1)])
    fix z assume z: "z \<in> set A" "z \<noteq> last A"
    have "z \<noteq> last Q" "z \<noteq> s2" using z ends s2 dj by metis+
    then show "next_n h' z = next_n h z" using z n by simp
  next
    fix z assume z: "z \<in> set A" "z \<noteq> hd A"
    then have "z \<in> set (tl A)" using ne(1) by (cases A) auto
    then have "z \<noteq> hd B" using d(4) by blast
    moreover have "z \<noteq> hd Q" "z \<noteq> s2" using z ends s2 dj by metis+
    ultimately show "prev_n h' z = prev_n h z" using pr by simp
  qed
  have B': "linked h' B"
  proof (rule linked_frame_mid [OF cB d(2)])
    fix z assume z: "z \<in> set B" "z \<noteq> last B"
    then have "z \<in> set (butlast B)" using ne(2)
      by (metis append_butlast_last_id in_set_conv_decomp rotate1.simps(2) set_ConsD set_rotate1)
    then have "z \<noteq> last A" using d(5) by blast
    moreover have "z \<noteq> last Q" "z \<noteq> s2" using z ends s2 dj by metis+
    ultimately show "next_n h' z = next_n h z" using n by simp
  next
    fix z assume z: "z \<in> set B" "z \<noteq> hd B"
    have "z \<noteq> hd Q" "z \<noteq> s2" using z ends s2 dj by metis+
    then show "prev_n h' z = prev_n h z" using z pr by simp
  qed
  have Q': "linked h' Q"
  proof (rule linked_frame_mid [OF cq d(3)])
    fix z assume z: "z \<in> set Q" "z \<noteq> last Q"
    have "z \<noteq> last A" "z \<noteq> s2" using z ends dj d(8) by metis+
    then show "next_n h' z = next_n h z" using z n by simp
  next
    fix z assume z: "z \<in> set Q" "z \<noteq> hd Q"
    have "z \<noteq> hd B" "z \<noteq> s2" using z ends dj d(8) by metis+
    then show "prev_n h' z = prev_n h z" using z pr by simp
  qed
  have "next_n h' (last A) = hd Q" "prev_n h' (hd Q) = last A"
    "next_n h' (last Q) = hd B" "prev_n h' (hd B) = last Q"
    using n pr ne2 by auto
  then show ?thesis
    using A' B' Q' ne linked_link [of h' A "Q @ B"] linked_link [of h' Q B] by simp
qed

lemma splice_eq:
  assumes "valid h s2" "valid h pos" "valid h (next_n h s2)" "valid h (prev_n h s2)"
    "valid h (prev_n h pos)" "size_l other \<noteq> 0" "head_l other = s2"
    "next_n h s2 \<noteq> s2" "prev_n h s2 \<noteq> s2" "pos \<noteq> next_n h s2" "pos \<noteq> s2"
  shows "splice_l h this pos other =
    Inr (h\<lparr>next_n := (next_n h)(prev_n h s2 := pos, prev_n h pos := next_n h s2, s2 := s2),
           prev_n := (prev_n h)(next_n h s2 := prev_n h pos, pos := prev_n h s2, s2 := s2)\<rparr>,
         this\<lparr>size_l := size_l this + size_l other\<rparr>, other\<lparr>size_l := 0\<rparr>)"
  using assms
  by (simp add: splice_l_def empty_l_def end_l_def size_of_def Let_def
      rd_prev_def rd_next_def wr_next_def wr_prev_def)

lemma splice_lst:
  assumes a: "lst h this (xs @ ys)" and b: "lst h other qs"
    and dj: "set (head_l this # xs @ ys) \<inter> set (head_l other # qs) = {}"
  shows "\<exists>h' this' other'.
      splice_l h this (hd (ys @ [head_l this])) other = Inr (h', this', other') \<and>
      lst h' this' (xs @ qs @ ys) \<and> lst h' other' [] \<and>
      head_l this' = head_l this \<and> head_l other' = head_l other \<and>
      size_l this' = size_l this + size_l other \<and> size_l other' = 0 \<and>
      alloc h' = alloc h \<and> value_n h' = value_n h \<and>
      (qs = [] \<longrightarrow> h' = h \<and> this' = this \<and> other' = other) \<and>
      (\<forall>z. z \<notin> set (head_l this # xs @ ys) \<union> set (head_l other # qs) \<longrightarrow>
         next_n h' z = next_n h z \<and> prev_n h' z = prev_n h z)"
proof (cases "qs = []")
  case True
  then have z: "size_l other = 0" using b by (simp add: lst_def unat_eq_0)
  then have "splice_l h this (hd (ys @ [head_l this])) other = Inr (h, this, other)"
    by (simp add: splice_l_def empty_l_def)
  then show ?thesis using a b True z by auto
next
  case False
  let ?s1 = "head_l this" and ?s2 = "head_l other"
  let ?pos = "hd (ys @ [?s1])" and ?q = "last (?s1 # xs)"
  let ?f = "hd qs" and ?e = "last qs"
  have r1: "ring h ?s1 (xs @ ys)" and r2: "ring h ?s2 qs"
    using a b by (simp_all add: lst_def)
  have d1: "distinct (?s1 # xs @ ys)" and d2: "distinct (?s2 # qs)"
    using r1 r2 by (simp_all add: ring_def)
  note sf = ring_split_facts [OF r1]
  have nf: "next_n h ?s2 = ?f"
    using ring_next_split [of h ?s2 "[]" qs] r2 False by simp
  have pe: "prev_n h ?s2 = ?e"
    using ring_prev_split [of h ?s2 qs "[]"] r2 False by simp
  have pq: "prev_n h ?pos = ?q" by (rule ring_prev_split [OF r1])
  have fin: "?f \<in> set qs" "?e \<in> set qs" using False by auto
  have v: "valid h ?s2" "valid h ?f" "valid h ?e"
    using ring_valid [OF r2] fin by auto
  have sz: "size_l other \<noteq> 0"
    using b False by (auto simp: lst_def)
  have djz: "\<And>z. z \<in> set (?s2 # qs) \<Longrightarrow> z \<notin> set (?s1 # xs @ ys)"
    using dj by auto
  have ne: "?f \<noteq> ?s2" "?e \<noteq> ?s2" "?pos \<noteq> ?f" "?pos \<noteq> ?s2"
    using fin d2 sf(3) djz by (metis distinct.simps(2) list.set_intros(1,2) Un_iff set_append set_ConsD)+
  let ?h' = "h\<lparr>next_n := (next_n h)(?e := ?pos, ?q := ?f, ?s2 := ?s2),
               prev_n := (prev_n h)(?f := ?q, ?pos := ?e, ?s2 := ?s2)\<rparr>"
  let ?this' = "this\<lparr>size_l := size_l this + size_l other\<rparr>"
  let ?other' = "other\<lparr>size_l := 0\<rparr>"
  have eq: "splice_l h this ?pos other = Inr (?h', ?this', ?other')"
    using splice_eq [of h ?s2 ?pos other this] v sf(1,2) sz ne nf pe pq by simp
  have cq: "linked h qs"
    using r2 linked_link [of h "[?s2]" "qs @ [?s2]"] linked_link [of h qs "[?s2]"]
    by (simp add: ring_def)
  have "linked h ((?s1 # xs) @ (ys @ [?s1]))" using r1 by (simp add: ring_def)
  then have "linked ?h' ((?s1 # xs) @ qs @ (ys @ [?s1]))"
  proof (rule linked_splice [where ?s2.0 = ?s2 and ?z1.0 = ?s2 and ?z2.0 = ?s2])
    show "hd (ys @ [?s1]) \<notin> set (tl (?s1 # xs))" using sf(5) by simp
    show "last (?s1 # xs) \<notin> set (butlast (ys @ [?s1]))" using sf(6) by (simp add: butlast_append)
    show "set qs \<inter> set (?s1 # xs) = {}" "set qs \<inter> set (ys @ [?s1]) = {}"
      using dj by auto
    show "?s2 \<notin> set (?s1 # xs)" "?s2 \<notin> set (ys @ [?s1])" using dj by auto
  qed (use d1 d2 cq False in \<open>auto\<close>)
  moreover have "distinct (?s1 # xs @ qs @ ys)"
    using d1 d2 dj by auto
  moreover have "list_all (valid ?h') (?s1 # xs @ qs @ ys)"
    using r1 r2 by (auto simp: ring_def list_all_iff)
  ultimately have r1': "ring ?h' ?s1 (xs @ qs @ ys)"
    by (simp add: ring_def)
  have r2': "ring ?h' ?s2 []"
    using v(1) by (simp add: ring_def)
  have "unat (size_l this + size_l other) = length (xs @ ys) + length qs"
    using unat_add_len [of "size_l this" "length (xs @ ys)" "size_l other" "length qs"]
      ring_length [OF r1'] a b by (simp add: lst_def)
  then have l1: "lst ?h' ?this' (xs @ qs @ ys)"
    using r1' by (simp add: lst_def)
  have l2: "lst ?h' ?other' []"
    using r2' by (simp add: lst_def)
  have fr: "\<forall>z. z \<notin> set (?s1 # xs @ ys) \<union> set (?s2 # qs) \<longrightarrow>
         next_n ?h' z = next_n h z \<and> prev_n ?h' z = prev_n h z"
    using fin sf(3,4) by auto
  show ?thesis
    using eq l1 l2 fr False by (intro exI [of _ ?h'] exI [of _ ?this'] exI [of _ ?other']) simp
qed

lemma ring_mem_cases:
  assumes "p \<in> set (s # ps)"
  obtains xs ys where "s # ps = xs @ p # ys"
  using assms by (meson split_list)

lemma ring_links:
  assumes r: "ring h s ps" and p: "p \<in> set (s # ps)"
  shows "next_n h p \<in> set (s # ps)" "prev_n h p \<in> set (s # ps)"
    "prev_n h (next_n h p) = p" "next_n h (prev_n h p) = p"
proof -
  have "\<exists>xs ys. ps = xs @ ys \<and> p = last (s # xs)"
  proof (cases "p = s")
    case True
    then show ?thesis by (intro exI [of _ "[]"] exI [of _ ps]) simp
  next
    case False
    then obtain xs ys where "ps = xs @ p # ys" using p by (auto dest: split_list)
    then show ?thesis by (intro exI [of _ "xs @ [p]"] exI [of _ ys]) simp
  qed
  then obtain xs ys where a: "ps = xs @ ys" "p = last (s # xs)" by blast
  have "\<exists>xs ys. ps = xs @ ys \<and> p = hd (ys @ [s])"
  proof (cases "p = s")
    case True
    then show ?thesis by (intro exI [of _ ps] exI [of _ "[]"]) simp
  next
    case False
    then obtain xs ys where "ps = xs @ p # ys" using p by (auto dest: split_list)
    then show ?thesis by (intro exI [of _ xs] exI [of _ "p # ys"]) simp
  qed
  then obtain us vs where b: "ps = us @ vs" "p = hd (vs @ [s])" by blast
  have r1: "ring h s (xs @ ys)" and r2: "ring h s (us @ vs)" using r a b by simp_all
  have n: "next_n h p = hd (ys @ [s])" using ring_next_split [OF r1] a by simp
  have q: "prev_n h p = last (s # us)" using ring_prev_split [OF r2] b by simp
  show "next_n h p \<in> set (s # ps)" using n a ring_split_facts(3) [OF r1] by auto
  show "prev_n h p \<in> set (s # ps)" using q b ring_split_facts(4) [OF r2] by auto
  show "prev_n h (next_n h p) = p" using n ring_prev_split [OF r1] a by simp
  show "next_n h (prev_n h p) = p" using q ring_next_split [OF r2] b by simp
qed

section \<open>Evaluating the model on the example states\<close>

lemma walk_numeral: "walk h p (numeral k) = p # walk h (next_n h p) (pred_numeral k)"
  by (simp add: numeral_eq_Suc)

text \<open>Fuel given as a numeral.\<close>

lemma fuel_numeral:
  "clear (numeral k) h l = clear (Suc (pred_numeral k)) h l"
  "merge_loop (numeral k) h this other tb te ob oe = merge_loop (Suc (pred_numeral k)) h this other tb te ob oe"
  "reverse_loop (numeral k) h b e = reverse_loop (Suc (pred_numeral k)) h b e"
  "unique_loop (numeral k) h l it = unique_loop (Suc (pred_numeral k)) h l it"
  "pivot_loop (numeral k) h p i n = pivot_loop (Suc (pred_numeral k)) h p i n"
  "partition_loop (numeral k) h pv sw i lf rt = partition_loop (Suc (pred_numeral k)) h pv sw i lf rt"
  "gather_loop (numeral k) h sw tr r n = gather_loop (Suc (pred_numeral k)) h sw tr r n"
  "quick_sort (numeral k) h left right n = quick_sort (Suc (pred_numeral k)) h left right n"
  by (simp_all only: numeral_eq_Suc)

lemmas model_defs =
  rd_next_def rd_prev_def rd_value_def wr_next_def wr_prev_def wr_value_def valid_def nullptr_def
  ListNode_default_def ListNode_value_def delete_node_def AttachPrev_def UnAttach_def
  SwapValues_def SwapNextPrev_def it_deref_def it_inc_def it_dec_def
  list_ctor_def begin_l_def end_l_def empty_l_def size_of_def insert_l_def erase_def
  push_back_def pop_back_def push_front_def pop_front_def list_dtor_def splice_l_def merge_def
  reverse_def unique_def sort_l_def insert_many_front_def pivot_of_def
  nodes_def elems_def wf_list_def ring_def list_init_def heap0_def walk_numeral fuel_numeral

lemmas ex_defs =
  exz_h_def exz_l_def exp_h_def exp_l_def ex2_h_def ex2_a_def ex2_b_def
  exm_h_def exm_a_def exm_b_def exs_h_def exs_l_def

lemma exz_built:
  "list_init 1 0 [(0, 2)] (heap0 0) = Inr (exz_h, exz_l)"
  by (auto simp add: exz_h_def exz_l_def model_defs fun_eq_iff)

lemma exp_built:
  "list_init 1 0 [(10, 2), (20, 3)] (heap0 0) = Inr (exp_h, exp_l)"
  by (auto simp add: exp_h_def exp_l_def model_defs fun_eq_iff)

lemma ex2_built:
  "bind_r (list_init 1 0 [(1, 2), (2, 3)] (heap0 0)) (\<lambda>(h1, a).
   bind_r (list_init 4 0 [(3, 5), (4, 6)] h1) (\<lambda>(h2, b). Inr (h2, a, b))) = Inr (ex2_h, ex2_a, ex2_b)"
  by (auto simp add: ex2_h_def ex2_a_def ex2_b_def model_defs fun_eq_iff)

lemma exm_built:
  "bind_r (list_init 1 0 [(1, 2), (4, 3), (7, 4)] (heap0 0)) (\<lambda>(h1, a).
   bind_r (list_init 5 0 [(2, 6), (4, 7), (9, 8)] h1) (\<lambda>(h2, b). Inr (h2, a, b))) = Inr (exm_h, exm_a, exm_b)"
  by (auto simp add: exm_h_def exm_a_def exm_b_def model_defs fun_eq_iff)

lemma exs_built:
  "list_init 1 0 [(5, 2), (3, 3), (8, 4), (1, 5)] (heap0 0) = Inr (exs_h, exs_l)"
  by (auto simp add: exs_h_def exs_l_def model_defs fun_eq_iff)

section \<open>max\_size\<close>

text \<open>
  C10. In every state \<^verbatim>\<open>max_size()\<close> returns the largest value of \<^verbatim>\<open>size_type\<close>,
  \<open>2^64 - 1\<close>, whatever the list holds; it is a \<^verbatim>\<open>const\<close> member and the model is a
  function of the list object that returns no new state.
\<close>

theorem max_size_is_numeric_limit:
  "unat (max_size l) = 2 ^ 64 - 1 \<and> (\<forall>n :: size_type. n \<le> max_size l)"
proof -
  have "max_size l = - 1" by (simp add: max_size_def)
  then show ?thesis by (simp add: unsigned_minus_1_eq_mask mask_eq_exp_minus_1)
qed

section \<open>erase\<close>

text \<open>
  C7. For every list and every store, \<^verbatim>\<open>erase(end())\<close> returns normally and changes
  neither the store (no node is unlinked or deallocated) nor the list object, so the
  size and the element sequence stay as they were.
\<close>

theorem erase_end_noop:
  "erase h l (end_l l) = Inr (h, l)"
  by (simp add: erase_def)

section \<open>splice\<close>

lemma lst_elems: "lst h l ps \<Longrightarrow> elems h l = map (value_n h) ps"
  by (simp add: elems_def lst_nodes)

lemma lst_wf: "lst h l ps \<Longrightarrow> wf_list h l"
  using wf_list_iff by blast

text \<open>
  C4. Let \<open>this\<close> and \<open>other\<close> be two well-formed lists that share no node, and let
  \<open>pos\<close> be a position of \<open>this\<close>: the node that follows the prefix \<open>xs\<close> of its
  nodes, or \<^verbatim>\<open>end()\<close> when the prefix is the whole list. Then \<^verbatim>\<open>splice(pos, other)\<close>
  returns normally; the nodes of \<open>other\<close> now sit in \<open>this\<close> immediately before \<open>pos\<close>,
  in their order and with their values; \<open>other\<close> is empty with size 0; the size of
  \<open>this\<close> grew by exactly the former size of \<open>other\<close> (without wrapping), so the total
  count is preserved; both lists are well formed; and with \<open>other\<close> empty nothing
  changes at all.
\<close>

theorem splice_moves_all:
  assumes "wf_list h this" and "wf_list h other"
    and "set (head_l this # nodes h this) \<inter> set (head_l other # nodes h other) = {}"
    and "nodes h this = xs @ ys" and "pos = hd (ys @ [end_l this])"
  shows "\<exists>h' this' other'. splice_l h this pos other = Inr (h', this', other') \<and>
    wf_list h' this' \<and> wf_list h' other' \<and>
    nodes h' this' = xs @ nodes h other @ ys \<and>
    elems h' this' = map (value_n h) xs @ elems h other @ map (value_n h) ys \<and>
    nodes h' other' = [] \<and> size_l other' = 0 \<and>
    size_l this' = size_l this + size_l other \<and>
    unat (size_l this') = unat (size_l this) + unat (size_l other) \<and>
    unat (size_l this') + unat (size_l other') = unat (size_l this) + unat (size_l other) \<and>
    (empty_l other \<longrightarrow> h' = h \<and> this' = this \<and> other' = other)"
proof -
  have a: "lst h this (xs @ ys)" using assms(1,4) by (simp add: wf_list_lst)
  have b: "lst h other (nodes h other)" using assms(2) by (simp add: wf_list_lst)
  have dj: "set (head_l this # xs @ ys) \<inter> set (head_l other # nodes h other) = {}"
    using assms(3,4) by simp
  from splice_lst [OF a b dj] obtain h' this' other' where
    s: "splice_l h this (hd (ys @ [head_l this])) other = Inr (h', this', other')"
    and l1: "lst h' this' (xs @ nodes h other @ ys)" and l2: "lst h' other' []"
    and sz: "size_l this' = size_l this + size_l other" "size_l other' = 0"
    and va: "value_n h' = value_n h"
    and em: "nodes h other = [] \<longrightarrow> h' = h \<and> this' = this \<and> other' = other"
    by blast
  have e: "empty_l other \<Longrightarrow> nodes h other = []"
    by (simp add: empty_l_def nodes_def)
  have u: "unat (size_l this') = unat (size_l this) + unat (size_l other)"
    using l1 a b by (simp add: lst_def)
  show ?thesis
    using s l1 l2 sz va em e u assms(5)
    by (auto simp: lst_nodes lst_elems lst_wf end_l_def elems_def)
qed

text \<open>The lists [1, 2] and [3, 4], spliced at \<^verbatim>\<open>end()\<close>, give [1, 2, 3, 4].\<close>

theorem splice_moves_all_witness:
  "(wf_list ex2_h ex2_a \<and> wf_list ex2_h ex2_b \<and>
    set (head_l ex2_a # nodes ex2_h ex2_a) \<inter> set (head_l ex2_b # nodes ex2_h ex2_b) = {} \<and>
    nodes ex2_h ex2_a = [2, 3] @ [] \<and> end_l ex2_a = hd ([] @ [end_l ex2_a])) \<and>
   (\<exists>h' a' b'. splice_l ex2_h ex2_a (end_l ex2_a) ex2_b = Inr (h', a', b') \<and>
      elems h' a' = [1, 2, 3, 4] \<and> nodes h' b' = [] \<and> unat (size_l a') = 4)"
proof -
  have f: "wf_list ex2_h ex2_a" "wf_list ex2_h ex2_b"
    "set (head_l ex2_a # nodes ex2_h ex2_a) \<inter> set (head_l ex2_b # nodes ex2_h ex2_b) = {}"
    "nodes ex2_h ex2_a = [2, 3] @ []" "end_l ex2_a = hd ([] @ [end_l ex2_a])"
    by (simp_all add: ex_defs model_defs)
  have g: "map (value_n ex2_h) [2, 3] = [1, 2]" "elems ex2_h ex2_b = [3, 4]"
    "unat (size_l ex2_a) = 2" "unat (size_l ex2_b) = 2"
    by (simp_all add: ex_defs model_defs)
  from splice_moves_all [OF f] g have
    "\<exists>h' a' b'. splice_l ex2_h ex2_a (end_l ex2_a) ex2_b = Inr (h', a', b') \<and>
      elems h' a' = [1, 2, 3, 4] \<and> nodes h' b' = [] \<and> unat (size_l a') = 4"
    by auto
  with f show ?thesis by blast
qed

section \<open>The pivot of quick\_sort\<close>

lemma pivot_loop_walk:
  assumes r: "ring h s ps"
  shows "p \<in> set (s # ps) \<Longrightarrow> unat i \<le> unat n div 2 \<Longrightarrow> unat n div 2 - unat i < fuel \<Longrightarrow>
    pivot_loop fuel h p i n = Inr ((next_n h ^^ (unat n div 2 - unat i)) p)"
proof (induction fuel arbitrary: p i)
  case 0
  then show ?case by simp
next
  case (Suc fuel)
  show ?case
  proof (cases "i < n div 2")
    case True
    then have lt: "unat i < unat n div 2" by (simp add: word_less_nat_alt unat_div)
    have "unat n < 2 ^ LENGTH(64)" by (rule unsigned_less)
    then have "unat n div 2 < 2 ^ 64" by simp
    then have u: "unat (i + 1) = Suc (unat i)" using lt unat_succ_len [of i "unat i"] by simp
    have v: "valid h p" using ring_valid [OF r Suc.prems(1)] .
    have "pivot_loop fuel h (next_n h p) (i + 1) n =
        Inr ((next_n h ^^ (unat n div 2 - unat (i + 1))) (next_n h p))"
      by (rule Suc.IH) (use ring_links(1) [OF r Suc.prems(1)] u lt Suc.prems in \<open>auto\<close>)
    moreover have "unat n div 2 - unat i = Suc (unat n div 2 - unat (i + 1))"
      using u lt by simp
    ultimately show ?thesis
      using True v by (simp add: it_inc_def rd_next_def funpow_swap1)
  next
    case False
    then have "unat n div 2 = unat i"
      using Suc.prems(2) by (simp add: word_less_nat_alt unat_div)
    with False show ?thesis by simp
  qed
qed

text \<open>
  C8, as amended. In a well-formed list, for a cursor \<open>left\<close> at an element node and any
  count \<open>list_size\<close>, with enough fuel the pivot cursor of
  \<^verbatim>\<open>quick_sort(left, right, list_size)\<close> is the node reached by \<open>list_size / 2\<close> steps
  of \<^verbatim>\<open>++\<close> from the predecessor of \<open>left\<close>; for \<open>list_size > 1\<close> that is
  \<open>list_size / 2 - 1\<close> steps from \<open>left\<close> itself. The choice does not depend on the
  stored values.
\<close>

theorem pivot_positional:
  assumes "wf_list h l" and "left \<in> set (nodes h l)" and "unat list_size div 2 < fuel"
  shows "pivot_of fuel h left list_size =
           Inr ((next_n h ^^ (unat list_size div 2)) (prev_n h left)) \<and>
         (1 < list_size \<longrightarrow> pivot_of fuel h left list_size =
           Inr ((next_n h ^^ (unat list_size div 2 - 1)) left)) \<and>
         (\<forall>f. pivot_of fuel (h\<lparr>value_n := f\<rparr>) left list_size =
           pivot_of fuel h left list_size)"
proof -
  let ?s = "head_l l" and ?ps = "nodes h l"
  have r: "ring h ?s ?ps" using assms(1) by (simp add: wf_list_def)
  have m: "left \<in> set (?s # ?ps)" using assms(2) by simp
  have v: "valid h left" using ring_valid [OF r m] .
  have pm: "prev_n h left \<in> set (?s # ?ps)" by (rule ring_links(2) [OF r m])
  have a: "pivot_of fuel h left list_size =
      Inr ((next_n h ^^ (unat list_size div 2)) (prev_n h left))"
    using pivot_loop_walk [OF r pm, of 0 list_size fuel] v assms(3)
    by (simp add: pivot_of_def it_dec_def rd_prev_def)
  have b: "pivot_of fuel (h\<lparr>value_n := f\<rparr>) left list_size =
      pivot_of fuel h left list_size" for f
  proof -
    have r': "ring (h\<lparr>value_n := f\<rparr>) ?s ?ps"
      by (rule ring_frame [OF r]) (use ring_valid [OF r] in \<open>auto\<close>)
    show ?thesis
      using pivot_loop_walk [OF r', of "prev_n h left" 0 list_size fuel] pm v assms(3) a
      by (simp add: pivot_of_def it_dec_def rd_prev_def)
  qed
  have c: "pivot_of fuel h left list_size =
      Inr ((next_n h ^^ (unat list_size div 2 - 1)) left)" if "1 < list_size"
  proof -
    have "2 \<le> unat list_size" using that by (simp add: word_less_nat_alt)
    then have "0 < unat list_size div 2" by simp
    then obtain k where k: "unat list_size div 2 = Suc k"
      using gr0_implies_Suc by blast
    show ?thesis
      using a k ring_links(4) [OF r m] by (simp add: funpow_swap1)
  qed
  show ?thesis using a b c by blast
qed

text \<open>On the list [10, 20] with \<open>left\<close> at the first node the pivot is that first node.\<close>

theorem pivot_positional_witness:
  "(wf_list exp_h exp_l \<and> (2::addr) \<in> set (nodes exp_h exp_l) \<and> unat (2::size_type) div 2 < (2::nat)) \<and>
   pivot_of 2 exp_h 2 2 = Inr 2"
proof -
  have f: "wf_list exp_h exp_l" "(2::addr) \<in> set (nodes exp_h exp_l)" "unat (2::size_type) div 2 < (2::nat)"
    by (simp_all add: ex_defs model_defs)
  have g: "(next_n exp_h ^^ (unat (2::size_type) div 2 - 1)) 2 = 2" "(1::size_type) < 2"
    by (simp_all add: ex_defs model_defs)
  from pivot_positional [OF f] g have "pivot_of 2 exp_h 2 2 = Inr 2" by metis
  with f show ?thesis by blast
qed

text \<open>
  C8 as stated fails: for the list [10, 20], \<open>left = begin()\<close> and count 2, the pivot is not
  the node one step (\<open>2 / 2\<close>) forward from \<open>left\<close>.
\<close>

theorem pivot_not_half_from_left:
  "pivot_of 2 exp_h (hd (nodes exp_h exp_l)) (size_l exp_l) \<noteq>
     Inr ((next_n exp_h ^^ (unat (size_l exp_l) div 2)) (hd (nodes exp_h exp_l)))"
  by (simp add: ex_defs model_defs)

section \<open>unique on a list that ends in the default value\<close>

lemma exz_facts:
  "head_l exz_l = 1" "next_n exz_h 2 = 1" "next_n exz_h 1 = 2" "valid exz_h 2" "valid exz_h 1"
  "value_n exz_h 2 = 0" "value_n exz_h 1 = 0" "size_l exz_l = 1"
  by (simp_all add: ex_defs model_defs)

lemma unique_loop_stuck: "unique_loop fuel exz_h exz_l 2 = Inl OutOfFuel"
  by (induction fuel)
    (simp_all add: exz_facts it_inc_def it_deref_def rd_next_def rd_value_def erase_def
      end_l_def nullptr_def)

text \<open>
  C6 at the failing input: the list [0] over \<^verbatim>\<open>int\<close> (whose \<^verbatim>\<open>value_type{}\<close> is 0) is
  well formed, and \<^verbatim>\<open>unique()\<close> does not return on it for any amount of fuel: the last
  element is compared with the sentinel, found equal, and \<^verbatim>\<open>erase(end())\<close> removes nothing.
\<close>

theorem unique_never_returns:
  "wf_list exz_h exz_l \<and> elems exz_h exz_l = [0] \<and>
   (\<forall>fuel. unique fuel exz_h exz_l = Inl OutOfFuel)"
proof -
  have "wf_list exz_h exz_l" "elems exz_h exz_l = [0]" by (simp_all add: ex_defs model_defs)
  moreover have "unique fuel exz_h exz_l = Inl OutOfFuel" for fuel
    using unique_loop_stuck [of fuel]
    by (simp add: unique_def empty_l_def begin_l_def rd_next_def exz_facts)
  ultimately show ?thesis by blast
qed

section \<open>insert\_many\_front\<close>

text \<open>
  C9 at the failing input: on the list [10, 20], \<^verbatim>\<open>insert_many_front(1, 2, 3)\<close> leaves
  [3, 2, 1, 10, 20]: the arguments arrive in reverse order.
\<close>

theorem insert_many_front_reverses:
  "elems exp_h exp_l = [10, 20] \<and>
   bind_r (insert_many_front 1 exp_h exp_l 0 10 [(1, 11), (2, 12), (3, 13)])
      (\<lambda>(h', l'). Inr (elems h' l', wf_list h' l')) = Inr ([3, 2, 1, 10, 20], True)"
  by (simp add: ex_defs model_defs)

section \<open>reverse\<close>

lemma SwapNextPrev_eq:
  "valid h p \<Longrightarrow> SwapNextPrev p h =
     Inr (h\<lparr>next_n := (next_n h)(p := prev_n h p), prev_n := (prev_n h)(p := next_n h p)\<rparr>)"
  by (simp add: SwapNextPrev_def rd_next_def rd_prev_def wr_next_def wr_prev_def)

lemma in_set_tl: "z \<in> set (tl xs) \<Longrightarrow> z \<in> set xs"
  by (cases xs) auto

lemma linked_frame_off:
  assumes "\<And>z. z \<in> set xs \<Longrightarrow> next_n h' z = next_n h z \<and> prev_n h' z = prev_n h z"
  shows "linked h' xs = linked h xs"
  by (rule linked_frame) (use assms in \<open>auto dest: in_set_butlastD in_set_tl\<close>)

lemma reverse_loop_swaps:
  "linked hc (rest @ [s]) \<Longrightarrow> distinct (rest @ [s]) \<Longrightarrow> \<forall>z \<in> set rest. valid hc z \<Longrightarrow>
   (if length rest < fuel then
      \<exists>h'. reverse_loop fuel hc (hd (rest @ [s])) s = Inr h' \<and>
        alloc h' = alloc hc \<and> value_n h' = value_n hc \<and>
        next_n h' = (\<lambda>z. if z \<in> set rest then prev_n hc z else next_n hc z) \<and>
        prev_n h' = (\<lambda>z. if z \<in> set rest then next_n hc z else prev_n hc z)
    else reverse_loop fuel hc (hd (rest @ [s])) s = Inl OutOfFuel)"
proof (induction rest arbitrary: hc fuel)
  case Nil
  then show ?case by (cases fuel) auto
next
  case (Cons r rs)
  show ?case
  proof (cases fuel)
    case 0
    then show ?thesis by simp
  next
    case (Suc f)
    let ?h1 = "hc\<lparr>next_n := (next_n hc)(r := prev_n hc r), prev_n := (prev_n hc)(r := next_n hc r)\<rparr>"
    have rs: "r \<noteq> s" "r \<notin> set rs" using Cons.prems(2) by auto
    have sw: "SwapNextPrev r hc = Inr ?h1"
      using Cons.prems(3) by (simp add: SwapNextPrev_eq)
    have nr: "next_n hc r = hd (rs @ [s])"
      using Cons.prems(1) by (cases rs) auto
    have l0: "linked hc (rs @ [s])"
      using Cons.prems(1) linked_link [of hc "[r]" "rs @ [s]"] by simp
    have l1: "linked ?h1 (rs @ [s])"
    proof -
      have "linked ?h1 (rs @ [s]) = linked hc (rs @ [s])"
        by (rule linked_frame_off) (use rs in auto)
      with l0 show ?thesis by simp
    qed
    have d1: "distinct (rs @ [s])" using Cons.prems(2) by simp
    have v1: "\<forall>z \<in> set rs. valid ?h1 z" using Cons.prems(3) by simp
    have step: "reverse_loop fuel hc (hd ((r # rs) @ [s])) s =
        reverse_loop f ?h1 (hd (rs @ [s])) s"
      using Suc rs sw nr Cons.prems(3) by (simp add: it_dec_def rd_prev_def)
    note ih = Cons.IH [OF l1 d1 v1, of f]
    show ?thesis
    proof (cases "length rs < f")
      case True
      with ih obtain h' where h': "reverse_loop f ?h1 (hd (rs @ [s])) s = Inr h'"
        "alloc h' = alloc ?h1" "value_n h' = value_n ?h1"
        "next_n h' = (\<lambda>z. if z \<in> set rs then prev_n ?h1 z else next_n ?h1 z)"
        "prev_n h' = (\<lambda>z. if z \<in> set rs then next_n ?h1 z else prev_n ?h1 z)"
        by auto
      have "next_n h' = (\<lambda>z. if z \<in> set (r # rs) then prev_n hc z else next_n hc z)"
        "prev_n h' = (\<lambda>z. if z \<in> set (r # rs) then next_n hc z else prev_n hc z)"
        using h'(4,5) rs by (auto simp: fun_eq_iff)
      with h' step True Suc show ?thesis by auto
    next
      case False
      with ih step Suc show ?thesis by auto
    qed
  qed
qed

lemma linked_drop_hd: "linked h (x # xs) \<Longrightarrow> linked h xs"
  by (cases xs) auto

lemma reverse_lst:
  assumes l: "lst h l ps"
  shows "if length ps < fuel then
      \<exists>h'. reverse fuel h l = Inr h' \<and> lst h' l (rev ps) \<and>
        alloc h' = alloc h \<and> value_n h' = value_n h \<and>
        next_n h' = (\<lambda>z. if z \<in> set (head_l l # ps) then prev_n h z else next_n h z) \<and>
        prev_n h' = (\<lambda>z. if z \<in> set (head_l l # ps) then next_n h z else prev_n h z)
    else reverse fuel h l = Inl OutOfFuel"
proof -
  let ?s = "head_l l"
  have r: "ring h ?s ps" using l by (simp add: lst_def)
  have d: "distinct (?s # ps)" and c: "linked h (?s # ps @ [?s])"
    using r by (simp_all add: ring_def)
  have vs: "valid h ?s" and vp: "\<forall>z \<in> set ps. valid h z"
    using ring_valid [OF r] by auto
  have b: "begin_l h l = Inr (hd (ps @ [?s]))"
    using vs ring_next_split [of h ?s "[]" ps] r by (simp add: begin_l_def rd_next_def)
  have c': "linked h (ps @ [?s])" using c linked_drop_hd by fastforce
  have d': "distinct (ps @ [?s])" using d by auto
  note lp = reverse_loop_swaps [OF c' d' vp, of fuel]
  show ?thesis
  proof (cases "length ps < fuel")
    case True
    with lp obtain h1 where h1: "reverse_loop fuel h (hd (ps @ [?s])) ?s = Inr h1"
      "alloc h1 = alloc h" "value_n h1 = value_n h"
      "next_n h1 = (\<lambda>z. if z \<in> set ps then prev_n h z else next_n h z)"
      "prev_n h1 = (\<lambda>z. if z \<in> set ps then next_n h z else prev_n h z)"
      by auto
    let ?h2 = "h1\<lparr>next_n := (next_n h1)(?s := prev_n h1 ?s), prev_n := (prev_n h1)(?s := next_n h1 ?s)\<rparr>"
    have v1: "valid h1 ?s" using vs h1(2) by (simp add: valid_def)
    have e: "reverse fuel h l = Inr ?h2"
      using b h1(1) v1 by (simp add: reverse_def end_l_def SwapNextPrev_eq)
    have n2: "next_n ?h2 = (\<lambda>z. if z \<in> set (?s # ps) then prev_n h z else next_n h z)"
      and p2: "prev_n ?h2 = (\<lambda>z. if z \<in> set (?s # ps) then next_n h z else prev_n h z)"
      using h1(4,5) d by (auto simp: fun_eq_iff)
    have "linked ?h2 (rev (?s # ps @ [?s])) = linked h (?s # ps @ [?s])"
      by (rule linked_rev) (use n2 p2 in \<open>auto\<close>)
    then have "linked ?h2 (?s # rev ps @ [?s])" using c by simp
    moreover have "list_all (valid ?h2) (?s # rev ps)"
      using vs vp h1(2) by (auto simp: list_all_iff valid_def)
    ultimately have "ring ?h2 ?s (rev ps)" using d by (simp add: ring_def)
    then have "lst ?h2 l (rev ps)" using l by (simp add: lst_def)
    with e n2 p2 h1(2,3) True show ?thesis
      by (intro exI [of _ ?h2] | simp)+
  next
    case False
    with lp b show ?thesis by (simp add: reverse_def end_l_def)
  qed
qed

text \<open>
  C5. For every well-formed list and fuel above its size, \<^verbatim>\<open>reverse()\<close> returns; the list
  is well formed again and holds the same nodes and values in reversed order; and a
  second \<^verbatim>\<open>reverse()\<close> returns exactly the original store, hence the original element
  order.
\<close>

theorem reverse_involution:
  assumes "wf_list h l" and "unat (size_l l) < fuel"
  shows "\<exists>h1. reverse fuel h l = Inr h1 \<and> wf_list h1 l \<and>
           nodes h1 l = rev (nodes h l) \<and> elems h1 l = rev (elems h l) \<and>
           reverse fuel h1 l = Inr h"
proof -
  let ?ps = "nodes h l"
  have l: "lst h l ?ps" using assms(1) by (simp add: wf_list_lst)
  have f: "length ?ps < fuel" using assms(2) by (simp add: nodes_def)
  from reverse_lst [OF l, of fuel] f obtain h1 where h1: "reverse fuel h l = Inr h1"
    "lst h1 l (rev ?ps)" "alloc h1 = alloc h" "value_n h1 = value_n h"
    "next_n h1 = (\<lambda>z. if z \<in> set (head_l l # ?ps) then prev_n h z else next_n h z)"
    "prev_n h1 = (\<lambda>z. if z \<in> set (head_l l # ?ps) then next_n h z else prev_n h z)"
    by auto
  from reverse_lst [OF h1(2), of fuel] f obtain h2 where h2: "reverse fuel h1 l = Inr h2"
    "alloc h2 = alloc h1" "value_n h2 = value_n h1"
    "next_n h2 = (\<lambda>z. if z \<in> set (head_l l # rev ?ps) then prev_n h1 z else next_n h1 z)"
    "prev_n h2 = (\<lambda>z. if z \<in> set (head_l l # rev ?ps) then next_n h1 z else prev_n h1 z)"
    by auto
  have "next_n h2 = next_n h" "prev_n h2 = prev_n h"
    using h2(4,5) h1(5,6) by (auto simp: fun_eq_iff)
  then have "h2 = h" using h2(2,3) h1(3,4) by simp
  moreover have "elems h1 l = rev (elems h l)"
    using lst_nodes [OF h1(2)] h1(4) by (simp add: elems_def rev_map)
  ultimately show ?thesis
    using h1(1,2) h2(1) by (auto simp: lst_nodes lst_wf)
qed

text \<open>The list [10, 20] becomes [20, 10], and reversing again restores the store.\<close>

theorem reverse_involution_witness:
  "(wf_list exp_h exp_l \<and> unat (size_l exp_l) < (3::nat)) \<and>
   (\<exists>h1. reverse 3 exp_h exp_l = Inr h1 \<and> elems h1 exp_l = [20, 10] \<and>
      reverse 3 h1 exp_l = Inr exp_h)"
proof -
  have f: "wf_list exp_h exp_l" "unat (size_l exp_l) < (3::nat)" by (simp_all add: ex_defs model_defs)
  have g: "rev (elems exp_h exp_l) = [20, 10]" by (simp add: ex_defs model_defs)
  from reverse_involution [OF f] g show ?thesis using f by auto
qed

section \<open>merge\<close>

lemma merge_nodes_Nil2 [simp]: "merge_nodes v ts [] = ts"
  by (cases ts) auto

lemma mset_merge_nodes: "mset (merge_nodes v ts os) = mset ts + mset os"
  by (induction v ts os rule: merge_nodes.induct) auto

lemma set_merge_nodes: "set (merge_nodes v ts os) = set ts \<union> set os"
  using mset_merge_nodes [of v ts os] by (metis set_mset_mset set_mset_union)

lemma sorted_merge_nodes:
  "sorted (map v ts) \<Longrightarrow> sorted (map v os) \<Longrightarrow> sorted (map v (merge_nodes v ts os))"
  by (induction v ts os rule: merge_nodes.induct) (auto simp: set_merge_nodes)

lemma merge_nodes_stable:
  "sorted (map v ts) \<Longrightarrow> sorted (map v os) \<Longrightarrow> t \<in> set ts \<Longrightarrow> u \<in> set os \<Longrightarrow> v t \<le> v u \<Longrightarrow>
     \<exists>pre vs ws. merge_nodes v ts os = pre @ t # vs @ u # ws"
proof (induction v ts os rule: merge_nodes.induct)
  case (3 v t' ts u' os)
  show ?case
  proof (cases "v u' < v t'")
    case True
    have "v t' \<le> v t" using 3(3,5) by auto
    with True 3(7) have "u \<noteq> u'" by auto
    with 3(6) have "u \<in> set os" by simp
    with 3(1) [OF True 3(3)] 3(4,5,7) obtain pre vs ws where
      "merge_nodes v (t' # ts) os = pre @ t # vs @ u # ws" by auto
    with True show ?thesis
      by (intro exI [of _ "u' # pre"] exI [of _ vs] exI [of _ ws]) simp
  next
    case False
    show ?thesis
    proof (cases "t = t'")
      case True
      have "u \<in> set (merge_nodes v ts (u' # os))" using 3(6) by (auto simp: set_merge_nodes)
      then obtain vs ws where "merge_nodes v ts (u' # os) = vs @ u # ws"
        by (auto dest: split_list)
      with False True show ?thesis
        by (intro exI [of _ "[]"] exI [of _ vs] exI [of _ ws]) simp
    next
      case ne: False
      with 3(5) have "t \<in> set ts" by simp
      with 3(2) [OF False _ 3(4)] 3(3,6,7) obtain pre vs ws where
        "merge_nodes v ts (u' # os) = pre @ t # vs @ u # ws" by auto
      with False show ?thesis
        by (intro exI [of _ "t' # pre"] exI [of _ vs] exI [of _ ws]) simp
    qed
  qed
qed auto


lemma hd_snoc_mem: "hd (ys @ [s]) \<in> set (s # ys)"
  by (cases ys) auto

lemma last_cons_mem: "last (s # xs) \<in> set (s # xs)"
  by (rule last_in_set) simp

lemma merge_step_move:
  assumes t: "two h this other (dn @ t # ts) (u # us)"
  shows "\<exists>h1 h2. UnAttach u h = Inr h1 \<and> AttachPrev t u h1 = Inr h2 \<and>
    two h2 (this\<lparr>size_l := size_l this + 1\<rparr>) (other\<lparr>size_l := size_l other - 1\<rparr>)
      ((dn @ [u]) @ t # ts) us \<and>
    alloc h2 = alloc h \<and> value_n h2 = value_n h \<and>
    (\<forall>z. z \<notin> set (head_l this # dn @ t # ts) \<union> set (head_l other # u # us) \<longrightarrow>
       next_n h2 z = next_n h z \<and> prev_n h2 z = prev_n h z)"
proof -
  let ?s1 = "head_l this" and ?s2 = "head_l other"
  have l1: "lst h this (dn @ t # ts)" and l2: "lst h other (u # us)"
    and dj: "set (?s1 # dn @ t # ts) \<inter> set (?s2 # u # us) = {}"
    using t by (simp_all add: two_def)
  have r1: "ring h ?s1 (dn @ t # ts)" and r2: "ring h ?s2 ([] @ u # us)"
    using l1 l2 by (simp_all add: lst_def)
  have d2: "distinct (?s2 # u # us)" using r2 by (simp add: ring_def)
  have djz: "\<And>z. z \<in> set (?s1 # dn @ t # ts) \<Longrightarrow> z \<notin> set (?s2 # u # us)"
    using dj by auto
  from UnAttach_ring [OF r2] obtain h1 where
    u1: "UnAttach u h = Inr h1" and r2': "ring h1 ?s2 us"
    and al1: "alloc h1 = alloc h" and va1: "value_n h1 = value_n h"
    and nx1: "next_n h1 = (next_n h)(?s2 := hd (us @ [?s2]), u := u)"
    and pr1: "prev_n h1 = (prev_n h)(hd (us @ [?s2]) := ?s2, u := u)"
    by auto
  have hm: "hd (us @ [?s2]) \<in> set (?s2 # us)" by (rule hd_snoc_mem)
  have r1': "ring h1 ?s1 (dn @ t # ts)"
  proof (rule ring_frame [OF r1])
    fix x assume x: "x \<in> set (?s1 # dn @ t # ts)"
    then have "x \<noteq> ?s2" "x \<noteq> u" "x \<noteq> hd (us @ [?s2])"
      using djz [OF x] hm by auto
    then show "next_n h1 x = next_n h x \<and> prev_n h1 x = prev_n h x \<and> valid h1 x"
      using nx1 pr1 al1 ring_valid [OF r1 x] by (simp add: valid_def)
  qed
  have vu: "valid h1 u" using ring_valid [OF r2] al1 by (simp add: valid_def)
  have un: "u \<notin> set (?s1 # dn @ t # ts)" using dj by auto
  from AttachPrev_ring [OF r1' vu un] obtain h2 where
    a2: "AttachPrev t u h1 = Inr h2" and r1'': "ring h2 ?s1 (dn @ u # t # ts)"
    and al2: "alloc h2 = alloc h1" and va2: "value_n h2 = value_n h1"
    and nx2: "next_n h2 = (next_n h1)(u := t, last (?s1 # dn) := u)"
    and pr2: "prev_n h2 = (prev_n h1)(u := last (?s1 # dn), t := u)"
    by auto
  have lm: "last (?s1 # dn) \<in> set (?s1 # dn)" by (rule last_cons_mem)
  have r2'': "ring h2 ?s2 us"
  proof (rule ring_frame [OF r2'])
    fix x assume x: "x \<in> set (?s2 # us)"
    then have "x \<noteq> u" using d2 by auto
    moreover have "x \<noteq> t" "x \<noteq> last (?s1 # dn)"
      using x lm dj by auto
    ultimately show "next_n h2 x = next_n h1 x \<and> prev_n h2 x = prev_n h1 x \<and> valid h2 x"
      using nx2 pr2 al2 ring_valid [OF r2' x] by (simp add: valid_def)
  qed
  have s1: "unat (size_l this + 1) = length (dn @ u # t # ts)"
    using unat_succ_len [of "size_l this" "length (dn @ t # ts)"] ring_length [OF r1''] l1
    by (simp add: lst_def)
  have s2: "unat (size_l other - 1) = length us"
    using unat_pred_len [of "size_l other" "length us"] l2 by (simp add: lst_def)
  have "two h2 (this\<lparr>size_l := size_l this + 1\<rparr>) (other\<lparr>size_l := size_l other - 1\<rparr>)
      ((dn @ [u]) @ t # ts) us"
    using r1'' r2'' s1 s2 dj d2 by (auto simp: two_def lst_def)
  moreover have "\<forall>z. z \<notin> set (?s1 # dn @ t # ts) \<union> set (?s2 # u # us) \<longrightarrow>
       next_n h2 z = next_n h z \<and> prev_n h2 z = prev_n h z"
    using nx1 pr1 nx2 pr2 hm lm by auto
  ultimately show ?thesis
    using u1 a2 al1 al2 va1 va2 by auto
qed


lemma merge_loop_lst:
  "two h this other (dn @ rest) orest \<Longrightarrow>
   (\<exists>h' this' other' m r.
      merge_loop fuel h this other (hd (rest @ [head_l this])) (head_l this)
        (hd (orest @ [head_l other])) (head_l other) = Inr (h', this', other') \<and>
      two h' this' other' (dn @ m) r \<and> m @ r = merge_nodes (value_n h) rest orest \<and>
      head_l this' = head_l this \<and> head_l other' = head_l other \<and>
      alloc h' = alloc h \<and> value_n h' = value_n h \<and>
      (\<forall>z. z \<notin> set (head_l this # dn @ rest) \<union> set (head_l other # orest) \<longrightarrow>
         next_n h' z = next_n h z \<and> prev_n h' z = prev_n h z)) \<or>
   (merge_loop fuel h this other (hd (rest @ [head_l this])) (head_l this)
        (hd (orest @ [head_l other])) (head_l other) = Inl OutOfFuel \<and>
    fuel \<le> length rest + length orest)"
proof (induction fuel arbitrary: h this other dn rest orest)
  case 0
  then show ?case by simp
next
  case (Suc fuel)
  let ?s1 = "head_l this" and ?s2 = "head_l other"
  have l1: "lst h this (dn @ rest)" and l2: "lst h other orest"
    using Suc.prems by (simp_all add: two_def)
  have r1: "ring h ?s1 (dn @ rest)" and r2: "ring h ?s2 orest"
    using l1 l2 by (simp_all add: lst_def)
  have d1: "distinct (?s1 # dn @ rest)" and d2: "distinct (?s2 # orest)"
    using r1 r2 by (simp_all add: ring_def)
  show ?case
  proof (cases "rest = [] \<or> orest = []")
    case True
    then have stop: "\<not> (hd (rest @ [?s1]) \<noteq> ?s1 \<and> hd (orest @ [?s2]) \<noteq> ?s2)"
      by auto
    have "merge_nodes (value_n h) rest orest = rest @ orest"
      using True by auto
    moreover have "merge_loop (Suc fuel) h this other (hd (rest @ [?s1])) ?s1
        (hd (orest @ [?s2])) ?s2 = Inr (h, this, other)"
      using stop by auto
    ultimately show ?thesis
      using Suc.prems
      by - (rule disjI1, rule exI [of _ h], rule exI [of _ this], rule exI [of _ other], rule exI [of _ rest], rule exI [of _ orest], simp)
  next
    case False
    then obtain t ts u us where rest: "rest = t # ts" and orest: "orest = u # us"
      by (meson list.exhaust)
    have go: "hd (rest @ [?s1]) \<noteq> ?s1 \<and> hd (orest @ [?s2]) \<noteq> ?s2"
      using rest orest d1 d2 by auto
    have vt: "valid h t" and vu: "valid h u"
      using ring_valid [OF r1] ring_valid [OF r2] rest orest by auto
    show ?thesis
    proof (cases "value_n h u < value_n h t")
      case True
      have t2: "two h this other (dn @ t # ts) (u # us)" using Suc.prems rest orest by simp
      from merge_step_move [OF t2] obtain h1 h2 where
        u1: "UnAttach u h = Inr h1" and a2: "AttachPrev t u h1 = Inr h2"
        and t2': "two h2 (this\<lparr>size_l := size_l this + 1\<rparr>)
            (other\<lparr>size_l := size_l other - 1\<rparr>) ((dn @ [u]) @ t # ts) us"
        and al: "alloc h2 = alloc h" and va: "value_n h2 = value_n h"
        and fr: "\<forall>z. z \<notin> set (?s1 # dn @ t # ts) \<union> set (?s2 # u # us) \<longrightarrow>
           next_n h2 z = next_n h z \<and> prev_n h2 z = prev_n h z"
        by blast
      have nu: "next_n h u = hd (us @ [?s2])"
        using ring_next_split [of h ?s2 "[u]" us] r2 orest by simp
      have step: "merge_loop (Suc fuel) h this other (hd (rest @ [?s1])) ?s1
            (hd (orest @ [?s2])) ?s2 =
          merge_loop fuel h2 (this\<lparr>size_l := size_l this + 1\<rparr>)
            (other\<lparr>size_l := size_l other - 1\<rparr>) (hd ((t # ts) @ [?s1])) ?s1
            (hd (us @ [?s2])) ?s2"
        using go True vt vu u1 a2 nu rest orest
        by (simp add: it_deref_def it_inc_def rd_value_def rd_next_def)
      from Suc.IH [OF t2'] show ?thesis
      proof (elim disjE exE conjE)
        fix h' this' other' m r
        assume ih: "merge_loop fuel h2 (this\<lparr>size_l := size_l this + 1\<rparr>)
            (other\<lparr>size_l := size_l other - 1\<rparr>)
            (hd ((t # ts) @ [head_l (this\<lparr>size_l := size_l this + 1\<rparr>)]))
            (head_l (this\<lparr>size_l := size_l this + 1\<rparr>))
            (hd (us @ [head_l (other\<lparr>size_l := size_l other - 1\<rparr>)]))
            (head_l (other\<lparr>size_l := size_l other - 1\<rparr>)) = Inr (h', this', other')"
          "two h' this' other' ((dn @ [u]) @ m) r"
          "m @ r = merge_nodes (value_n h2) (t # ts) us"
          "head_l this' = head_l (this\<lparr>size_l := size_l this + 1\<rparr>)"
          "head_l other' = head_l (other\<lparr>size_l := size_l other - 1\<rparr>)"
          "alloc h' = alloc h2" "value_n h' = value_n h2"
          "\<forall>z. z \<notin> set (head_l (this\<lparr>size_l := size_l this + 1\<rparr>) # (dn @ [u]) @ t # ts) \<union>
              set (head_l (other\<lparr>size_l := size_l other - 1\<rparr>) # us) \<longrightarrow>
            next_n h' z = next_n h2 z \<and> prev_n h' z = prev_n h2 z"
        have "(u # m) @ r = merge_nodes (value_n h) rest orest"
          using ih(3) True va rest orest by simp
        moreover have "two h' this' other' (dn @ u # m) r" using ih(2) by simp
        moreover have "\<forall>z. z \<notin> set (?s1 # dn @ rest) \<union> set (?s2 # orest) \<longrightarrow>
            next_n h' z = next_n h z \<and> prev_n h' z = prev_n h z"
          using ih(8) fr rest orest by auto
        ultimately show ?thesis
          using step ih(1,4,5,6,7) al va
          by - (rule disjI1, rule exI [of _ h'], rule exI [of _ this'], rule exI [of _ other'], rule exI [of _ "u # m"], rule exI [of _ r], simp)
      next
        assume "merge_loop fuel h2 (this\<lparr>size_l := size_l this + 1\<rparr>)
            (other\<lparr>size_l := size_l other - 1\<rparr>)
            (hd ((t # ts) @ [head_l (this\<lparr>size_l := size_l this + 1\<rparr>)]))
            (head_l (this\<lparr>size_l := size_l this + 1\<rparr>))
            (hd (us @ [head_l (other\<lparr>size_l := size_l other - 1\<rparr>)]))
            (head_l (other\<lparr>size_l := size_l other - 1\<rparr>)) = Inl OutOfFuel"
          "fuel \<le> length (t # ts) + length us"
        then show ?thesis using step rest orest by simp
      qed
    next
      case False
      have t2: "two h this other ((dn @ [t]) @ ts) orest" using Suc.prems rest by simp
      have nt: "next_n h t = hd (ts @ [?s1])"
        using ring_next_split [of h ?s1 "dn @ [t]" ts] r1 rest by simp
      have step: "merge_loop (Suc fuel) h this other (hd (rest @ [?s1])) ?s1
            (hd (orest @ [?s2])) ?s2 =
          merge_loop fuel h this other (hd (ts @ [?s1])) ?s1 (hd (orest @ [?s2])) ?s2"
        using go False vt vu nt rest orest
        by (simp add: it_deref_def it_inc_def rd_value_def rd_next_def)
      from Suc.IH [OF t2] show ?thesis
      proof (elim disjE exE conjE)
        fix h' this' other' m r
        assume ih: "merge_loop fuel h this other (hd (ts @ [?s1])) ?s1 (hd (orest @ [?s2])) ?s2
            = Inr (h', this', other')"
          "two h' this' other' ((dn @ [t]) @ m) r"
          "m @ r = merge_nodes (value_n h) ts orest"
          "head_l this' = ?s1" "head_l other' = ?s2"
          "alloc h' = alloc h" "value_n h' = value_n h"
          "\<forall>z. z \<notin> set (?s1 # (dn @ [t]) @ ts) \<union> set (?s2 # orest) \<longrightarrow>
            next_n h' z = next_n h z \<and> prev_n h' z = prev_n h z"
        have "(t # m) @ r = merge_nodes (value_n h) rest orest"
          using ih(3) False rest orest by simp
        moreover have "two h' this' other' (dn @ t # m) r" using ih(2) by simp
        moreover have "\<forall>z. z \<notin> set (?s1 # dn @ rest) \<union> set (?s2 # orest) \<longrightarrow>
            next_n h' z = next_n h z \<and> prev_n h' z = prev_n h z"
          using ih(8) rest by auto
        ultimately show ?thesis
          using step ih(1,4,5,6,7)
          by - (rule disjI1, rule exI [of _ h'], rule exI [of _ this'], rule exI [of _ other'], rule exI [of _ "t # m"], rule exI [of _ r], simp)
      next
        assume "merge_loop fuel h this other (hd (ts @ [?s1])) ?s1 (hd (orest @ [?s2])) ?s2
            = Inl OutOfFuel" "fuel \<le> length ts + length orest"
        then show ?thesis using step rest by simp
      qed
    qed
  qed
qed


lemma merge_lst:
  assumes t: "two h this other ps qs"
  shows "(\<exists>h' this' other'. merge fuel False h this other = Inr (h', this', other') \<and>
      two h' this' other' (merge_nodes (value_n h) ps qs) [] \<and>
      head_l this' = head_l this \<and> head_l other' = head_l other \<and>
      alloc h' = alloc h \<and> value_n h' = value_n h \<and>
      (\<forall>z. z \<notin> set (head_l this # ps) \<union> set (head_l other # qs) \<longrightarrow>
         next_n h' z = next_n h z \<and> prev_n h' z = prev_n h z)) \<or>
    (merge fuel False h this other = Inl OutOfFuel \<and> fuel \<le> length ps + length qs)"
proof -
  let ?s1 = "head_l this" and ?s2 = "head_l other"
  have r1: "ring h ?s1 ([] @ ps)" and r2: "ring h ?s2 ([] @ qs)"
    using t by (simp_all add: two_def lst_def)
  have b1: "begin_l h this = Inr (hd (ps @ [?s1]))"
    using ring_next_split [OF r1] ring_valid [OF r1, of ?s1] by (simp add: begin_l_def rd_next_def)
  have b2: "begin_l h other = Inr (hd (qs @ [?s2]))"
    using ring_next_split [OF r2] ring_valid [OF r2, of ?s2] by (simp add: begin_l_def rd_next_def)
  have m: "merge fuel False h this other =
      bind_r (merge_loop fuel h this other (hd (ps @ [?s1])) ?s1 (hd (qs @ [?s2])) ?s2)
        (\<lambda>(h1, this1, other1). splice_l h1 this1 (end_l this1) other1)"
    using b1 b2 by (simp add: merge_def end_l_def)
  have t0: "two h this other ([] @ ps) qs" using t by simp
  from merge_loop_lst [OF t0, of fuel] show ?thesis
  proof (elim disjE exE conjE)
    fix h1 this1 other1 m1 r
    assume lp: "merge_loop fuel h this other (hd (ps @ [?s1])) ?s1 (hd (qs @ [?s2])) ?s2
        = Inr (h1, this1, other1)"
      "two h1 this1 other1 ([] @ m1) r" "m1 @ r = merge_nodes (value_n h) ps qs"
      "head_l this1 = ?s1" "head_l other1 = ?s2" "alloc h1 = alloc h" "value_n h1 = value_n h"
      "\<forall>z. z \<notin> set (?s1 # [] @ ps) \<union> set (?s2 # qs) \<longrightarrow>
         next_n h1 z = next_n h z \<and> prev_n h1 z = prev_n h z"
    have a: "lst h1 this1 (m1 @ [])" and b: "lst h1 other1 r"
      and dj: "set (head_l this1 # m1 @ []) \<inter> set (head_l other1 # r) = {}"
      using lp(2) by (simp_all add: two_def)
    from splice_lst [OF a b dj] obtain h' this' other' where
      sp: "splice_l h1 this1 (hd ([] @ [head_l this1])) other1 = Inr (h', this', other')"
      and l1: "lst h' this' (m1 @ r @ [])" and l2: "lst h' other' []"
      and hs: "head_l this' = head_l this1" "head_l other' = head_l other1"
      and al: "alloc h' = alloc h1" and va: "value_n h' = value_n h1"
      and fr: "\<forall>z. z \<notin> set (head_l this1 # m1 @ []) \<union> set (head_l other1 # r) \<longrightarrow>
         next_n h' z = next_n h1 z \<and> prev_n h' z = prev_n h1 z"
      by blast
    have sets: "set m1 \<union> set r = set ps \<union> set qs"
      using lp(3) set_merge_nodes [of "value_n h" ps qs] by (metis set_append)
    have "head_l other1 \<notin> set r" using b by (simp add: lst_def ring_def)
    moreover have "head_l other1 \<notin> set m1" using dj by auto
    ultimately have "head_l other1 \<notin> set (merge_nodes (value_n h) ps qs)"
      using lp(3) by (metis Un_iff set_append)
    moreover have "head_l other1 \<noteq> head_l this1" using dj by auto
    ultimately have "two h' this' other' (merge_nodes (value_n h) ps qs) []"
      using l1 l2 hs lp(3) by (simp add: two_def)
    moreover have "merge fuel False h this other = Inr (h', this', other')"
      using m lp(1) sp by (simp add: end_l_def)
    moreover have "\<forall>z. z \<notin> set (?s1 # ps) \<union> set (?s2 # qs) \<longrightarrow>
         next_n h' z = next_n h z \<and> prev_n h' z = prev_n h z"
      using fr lp(4,5,8) sets by auto
    ultimately show ?thesis
      using hs lp(4,5,6,7) al va by auto
  next
    assume "merge_loop fuel h this other (hd (ps @ [?s1])) ?s1 (hd (qs @ [?s2])) ?s2
        = Inl OutOfFuel" "fuel \<le> length ps + length qs"
    then show ?thesis using m by simp
  qed
qed

lemma wf_two:
  "wf_list h this \<Longrightarrow> wf_list h other \<Longrightarrow>
   set (head_l this # nodes h this) \<inter> set (head_l other # nodes h other) = {} \<Longrightarrow>
   two h this other (nodes h this) (nodes h other)"
  by (simp add: two_def wf_list_lst)

text \<open>
  C3. Let \<open>this\<close> and \<open>other\<close> be two different, well-formed lists that share no node,
  each sorted ascending, and let the fuel exceed the sum of their sizes. Then
  \<^verbatim>\<open>this->merge(other)\<close> returns; \<open>this\<close> is one ascending sequence that holds the nodes
  of both lists (relinked, values untouched), so its values are the union with
  multiplicity; \<open>other\<close> is empty; and any node that came from \<open>this\<close> stands ahead of
  any node from \<open>other\<close> that holds an equal value.
\<close>

theorem merge_sorted_stable:
  assumes "wf_list h this" and "wf_list h other"
    and "set (head_l this # nodes h this) \<inter> set (head_l other # nodes h other) = {}"
    and "sorted (elems h this)" and "sorted (elems h other)"
    and "unat (size_l this) + unat (size_l other) < fuel"
  shows "\<exists>h' this' other'. merge fuel False h this other = Inr (h', this', other') \<and>
    wf_list h' this' \<and> wf_list h' other' \<and>
    sorted (elems h' this') \<and>
    mset (elems h' this') = mset (elems h this) + mset (elems h other) \<and>
    mset (nodes h' this') = mset (nodes h this) + mset (nodes h other) \<and>
    value_n h' = value_n h \<and>
    nodes h' other' = [] \<and> elems h' other' = [] \<and> size_l other' = 0 \<and>
    (\<forall>t \<in> set (nodes h this). \<forall>u \<in> set (nodes h other).
       value_n h t = value_n h u \<longrightarrow>
       (\<exists>pre mid post. nodes h' this' = pre @ t # mid @ u # post))"
proof -
  let ?ps = "nodes h this" and ?qs = "nodes h other" and ?v = "value_n h"
  let ?m = "merge_nodes ?v ?ps ?qs"
  have t: "two h this other ?ps ?qs" using assms(1,2,3) by (rule wf_two)
  have f: "\<not> fuel \<le> length ?ps + length ?qs" using assms(6) by (simp add: nodes_def)
  from merge_lst [OF t, of fuel] f obtain h' this' other' where
    m: "merge fuel False h this other = Inr (h', this', other')"
    and t': "two h' this' other' ?m []" and va: "value_n h' = ?v"
    by auto
  have l1: "lst h' this' ?m" and l2: "lst h' other' []" using t' by (simp_all add: two_def)
  have n1: "nodes h' this' = ?m" and n2: "nodes h' other' = []"
    using l1 l2 by (simp_all add: lst_nodes)
  have e1: "elems h' this' = map ?v ?m" using n1 va by (simp add: elems_def)
  have s1: "sorted (map ?v ?ps)" and s2: "sorted (map ?v ?qs)"
    using assms(4,5) by (simp_all add: elems_def)
  have "sorted (elems h' this')" using e1 sorted_merge_nodes [OF s1 s2] by simp
  moreover have "mset (elems h' this') = mset (elems h this) + mset (elems h other)"
  proof -
    have "mset (map ?v ?m) = mset (map ?v ?ps) + mset (map ?v ?qs)"
      by (simp add: mset_merge_nodes)
    then show ?thesis using e1 by (simp only: elems_def)
  qed
  moreover have "mset (nodes h' this') = mset ?ps + mset ?qs"
    using n1 by (simp add: mset_merge_nodes)
  moreover have "size_l other' = 0" using l2 by (simp add: lst_def unat_eq_0)
  moreover have "\<exists>pre mid post. nodes h' this' = pre @ t # mid @ u # post"
    if "t \<in> set ?ps" "u \<in> set ?qs" "?v t = ?v u" for t u
    using merge_nodes_stable [OF s1 s2 that(1,2)] that(3) n1 by simp
  ultimately show ?thesis
    using m l1 l2 n2 va by (auto simp: lst_wf elems_def)
qed

text \<open>
  [1, 4, 7] merged with [2, 4, 9]: the node of the first list holding 4 (address 3)
  comes before the node of the second list holding 4 (address 7).
\<close>

theorem merge_sorted_stable_witness:
  "(wf_list exm_h exm_a \<and> wf_list exm_h exm_b \<and>
    set (head_l exm_a # nodes exm_h exm_a) \<inter> set (head_l exm_b # nodes exm_h exm_b) = {} \<and>
    sorted (elems exm_h exm_a) \<and> sorted (elems exm_h exm_b) \<and>
    unat (size_l exm_a) + unat (size_l exm_b) < (7::nat)) \<and>
   (\<exists>h' a' b'. merge 7 False exm_h exm_a exm_b = Inr (h', a', b') \<and>
      sorted (elems h' a') \<and> mset (elems h' a') = mset [1, 4, 7] + mset [2, 4, 9] \<and>
      elems h' b' = [] \<and>
      (\<exists>pre mid post. nodes h' a' = pre @ 3 # mid @ 7 # post))"
proof -
  have f: "wf_list exm_h exm_a" "wf_list exm_h exm_b"
    "set (head_l exm_a # nodes exm_h exm_a) \<inter> set (head_l exm_b # nodes exm_h exm_b) = {}"
    "sorted (elems exm_h exm_a)" "sorted (elems exm_h exm_b)"
    "unat (size_l exm_a) + unat (size_l exm_b) < (7::nat)"
    by (simp_all add: ex_defs model_defs)
  have g: "elems exm_h exm_a = [1, 4, 7]" "elems exm_h exm_b = [2, 4, 9]"
    "(3::addr) \<in> set (nodes exm_h exm_a)" "(7::addr) \<in> set (nodes exm_h exm_b)"
    "value_n exm_h 3 = value_n exm_h 7"
    by (simp_all add: ex_defs model_defs)
  from merge_sorted_stable [OF f] obtain h' a' b' where
    m: "merge 7 False exm_h exm_a exm_b = Inr (h', a', b')" "sorted (elems h' a')"
    "mset (elems h' a') = mset (elems exm_h exm_a) + mset (elems exm_h exm_b)"
    "elems h' b' = []"
    "\<forall>t \<in> set (nodes exm_h exm_a). \<forall>u \<in> set (nodes exm_h exm_b).
       value_n exm_h t = value_n exm_h u \<longrightarrow>
       (\<exists>pre mid post. nodes h' a' = pre @ t # mid @ u # post)"
    by blast
  from m(5) g(3,4,5) have "\<exists>pre mid post. nodes h' a' = pre @ 3 # mid @ 7 # post" by blast
  with m(1,2,3,4) g(1,2) f show ?thesis by auto
qed

section \<open>sort\<close>

lemma same_links_refl [simp]: "same_links h h"
  by (simp add: same_links_def)

lemma same_links_trans: "same_links h2 h1 \<Longrightarrow> same_links h1 h \<Longrightarrow> same_links h2 h"
  by (simp add: same_links_def)

lemma same_links_ring: "same_links h' h \<Longrightarrow> ring h s ps \<Longrightarrow> ring h' s ps"
  by (rule ring_frame) (auto simp: same_links_def valid_def dest: ring_valid)

lemma ring_index:
  assumes r: "ring h s ps"
  shows "i < length ps \<Longrightarrow> next_n h ((s # ps) ! i) = (s # ps) ! Suc i"
    and "next_n h ((s # ps) ! length ps) = s"
    and "i < length ps \<Longrightarrow> prev_n h ((s # ps) ! Suc i) = (s # ps) ! i"
    and "prev_n h s = (s # ps) ! length ps"
    and "i \<le> length ps \<Longrightarrow> valid h ((s # ps) ! i)"
    and "i \<le> length ps \<Longrightarrow> j \<le> length ps \<Longrightarrow> (s # ps) ! i = (s # ps) ! j \<longleftrightarrow> i = j"
proof -
  let ?cs = "s # ps" and ?xs = "s # ps @ [s]"
  have c: "linked h ?xs" and d: "distinct ?cs" using r by (simp_all add: ring_def)
  have nth: "?xs ! k = ?cs ! k" if "k \<le> length ps" for k
    using that by (metis Cons_eq_appendI length_Cons less_Suc_eq_le nth_append)
  have lastx: "?xs ! Suc (length ps) = s"
    by (metis append_Cons length_Cons nth_append_length)
  show "next_n h (?cs ! i) = ?cs ! Suc i" if "i < length ps"
    using linked_nth [OF c, of i] that nth [of i] nth [of "Suc i"] by simp
  show "next_n h (?cs ! length ps) = s"
    using linked_nth [OF c, of "length ps"] nth [of "length ps"] lastx by simp
  show "prev_n h (?cs ! Suc i) = ?cs ! i" if "i < length ps"
    using linked_nth [OF c, of i] that nth [of i] nth [of "Suc i"] by simp
  show "prev_n h s = ?cs ! length ps"
    using linked_nth [OF c, of "length ps"] nth [of "length ps"] lastx by simp
  show "valid h (?cs ! i)" if "i \<le> length ps"
    using ring_valid [OF r, of "?cs ! i"] that by (metis length_Cons less_Suc_eq_le nth_mem)
  show "?cs ! i = ?cs ! j \<longleftrightarrow> i = j" if "i \<le> length ps" "j \<le> length ps"
    using d that by (metis length_Cons less_Suc_eq_le nth_eq_iff_index_eq)
qed

lemma ring_idx:
  assumes r: "ring h s ps" and cs: "cs = s # ps"
  shows "i < length ps \<Longrightarrow> next_n h (cs ! i) = cs ! Suc i"
    and "next_n h (cs ! length ps) = cs ! 0"
    and "i < length ps \<Longrightarrow> prev_n h (cs ! Suc i) = cs ! i"
    and "prev_n h (cs ! 0) = cs ! length ps"
    and "i \<le> length ps \<Longrightarrow> valid h (cs ! i)"
    and "i \<le> length ps \<Longrightarrow> j \<le> length ps \<Longrightarrow> cs ! i = cs ! j \<longleftrightarrow> i = j"
  using ring_index [OF r] unfolding cs by simp_all

lemma SwapValues_eq:
  "valid h a \<Longrightarrow> valid h b \<Longrightarrow> SwapValues a b h =
     Inr (h\<lparr>value_n := (value_n h)(a := value_n h b, b := value_n h a)\<rparr>)"
  by (simp add: SwapValues_def rd_value_def wr_value_def)

lemma swap_image_mset:
  assumes "finite S" "i \<in> S" "j \<in> S"
  shows "image_mset (f(i := f j, j := f i)) (mset_set S) = image_mset f (mset_set S)"
proof (cases "i = j")
  case True
  then show ?thesis by simp
next
  case False
  let ?T = "S - {i} - {j}"
  have S: "mset_set S = add_mset i (add_mset j (mset_set ?T))"
    using assms False by (metis finite_Diff insertE insert_Diff mset_set.remove)
  have "image_mset (f(i := f j, j := f i)) (mset_set ?T) = image_mset f (mset_set ?T)"
    by (rule image_mset_cong) (use assms(1) in auto)
  then show ?thesis using False by (simp add: S)
qed

lemma keeps_refl [simp]: "keeps h h cs l r"
  by (simp add: keeps_def)

lemma keeps_trans: "keeps h2 h1 cs l r \<Longrightarrow> keeps h1 h cs l r \<Longrightarrow> keeps h2 h cs l r"
  by (auto simp: keeps_def intro: same_links_trans)

lemma keeps_widen:
  assumes k: "keeps h' h cs l' r'" and b: "l \<le> l'" "r' \<le> r" "r < length cs"
  shows "keeps h' h cs l r"
proof (cases "l' \<le> r'")
  case True
  let ?O = "{l..r} - {l'..r'}"
  have split: "mset_set {l..r} = mset_set {l'..r'} + mset_set ?O"
  proof -
    have "{l..r} = {l'..r'} \<union> ?O" using b True by auto
    moreover have "{l'..r'} \<inter> ?O = {}" by auto
    ultimately show ?thesis
      by (metis finite_Diff finite_atLeastAtMost mset_set_Union)
  qed
  have "image_mset (vat h' cs) (mset_set ?O) = image_mset (vat h cs) (mset_set ?O)"
    by (rule image_mset_cong) (use k b in \<open>auto simp: keeps_def\<close>)
  then have "image_mset (vat h' cs) (mset_set {l..r}) = image_mset (vat h cs) (mset_set {l..r})"
    using k by (simp add: split keeps_def)
  moreover have "\<forall>k. k < length cs \<and> k \<notin> {l..r} \<longrightarrow> vat h' cs k = vat h cs k"
    using k b by (auto simp: keeps_def)
  ultimately show ?thesis using k by (simp add: keeps_def)
next
  case False
  then have e: "{l'..r'} = {}" by simp
  have all: "\<forall>k. k < length cs \<longrightarrow> vat h' cs k = vat h cs k"
    using k e by (simp add: keeps_def)
  have "image_mset (vat h' cs) (mset_set {l..r}) = image_mset (vat h cs) (mset_set {l..r})"
    by (rule image_mset_cong) (use all b in auto)
  then show ?thesis using k all by (simp add: keeps_def)
qed

lemma keeps_transfer:
  assumes k: "keeps h' h cs l r" and P: "\<forall>k. l \<le> k \<and> k \<le> r \<longrightarrow> P (vat h cs k)"
    and i: "l \<le> i" "i \<le> r"
  shows "P (vat h' cs i)"
proof -
  have eq: "image_mset (vat h' cs) (mset_set {l..r}) = image_mset (vat h cs) (mset_set {l..r})"
    using k by (simp add: keeps_def)
  have "vat h' cs i \<in># image_mset (vat h' cs) (mset_set {l..r})" using i by simp
  then have "vat h' cs i \<in># image_mset (vat h cs) (mset_set {l..r})"
    by (simp only: eq)
  then obtain k where "k \<in> {l..r}" "vat h' cs i = vat h cs k" by auto
  with P show ?thesis by simp
qed

lemma keeps_outside:
  "keeps h' h cs l r \<Longrightarrow> k < length cs \<Longrightarrow> k < l \<or> r < k \<Longrightarrow> vat h' cs k = vat h cs k"
  by (auto simp: keeps_def)

lemma swap_keeps:
  assumes r: "ring h s ps" and cs: "cs = s # ps" and i: "l \<le> i" "i \<le> r" and j: "l \<le> j" "j \<le> r"
    and n: "r \<le> length ps"
  shows "\<exists>h'. SwapValues (cs ! i) (cs ! j) h = Inr h' \<and> keeps h' h cs l r \<and>
    vat h' cs i = vat h cs j \<and> vat h' cs j = vat h cs i \<and>
    (\<forall>k. k \<le> length ps \<and> k \<noteq> i \<and> k \<noteq> j \<longrightarrow> vat h' cs k = vat h cs k)"
proof -
  let ?h' = "h\<lparr>value_n := (value_n h)(cs ! i := value_n h (cs ! j),
                       cs ! j := value_n h (cs ! i))\<rparr>"
  note ri = ring_idx [OF r cs]
  have i': "i \<le> length ps" and j': "j \<le> length ps" using i j n by auto
  have len: "length cs = Suc (length ps)" using cs by simp
  have v: "vat ?h' cs k = ((vat h cs)(i := vat h cs j, j := vat h cs i)) k"
    if "k \<le> length ps" for k
    using ri(6) [OF that i'] ri(6) [OF that j']
    by (simp add: vat_def)
  have e: "SwapValues (cs ! i) (cs ! j) h = Inr ?h'"
    using ri(5) i' j' by (simp add: SwapValues_eq)
  have sl: "same_links ?h' h" by (simp add: same_links_def)
  have out: "value_n ?h' z = value_n h z" if "z \<notin> set cs" for z
  proof -
    have "cs ! i \<in> set cs" "cs ! j \<in> set cs"
      using i' j' len by (metis less_Suc_eq_le nth_mem)+
    with that show ?thesis by auto
  qed
  have "image_mset (vat ?h' cs) (mset_set {l..r}) =
      image_mset ((vat h cs)(i := vat h cs j, j := vat h cs i)) (mset_set {l..r})"
    by (rule image_mset_cong) (use v n in auto)
  also have "\<dots> = image_mset (vat h cs) (mset_set {l..r})"
    by (rule swap_image_mset) (use i j in auto)
  finally have ms: "image_mset (vat ?h' cs) (mset_set {l..r}) =
      image_mset (vat h cs) (mset_set {l..r})" .
  have kp: "keeps ?h' h cs l r"
    unfolding keeps_def
  proof (intro conjI allI impI)
    fix k assume "k < length cs \<and> k \<notin> {l..r}"
    then have "k \<le> length ps" "k \<noteq> i" "k \<noteq> j" using i j len by auto
    then show "vat ?h' cs k = vat h cs k" using v by simp
  qed (use sl ms out in auto)
  have "vat ?h' cs i = vat h cs j" "vat ?h' cs j = vat h cs i"
    using v [OF i'] v [OF j'] by auto
  moreover have "\<forall>k. k \<le> length ps \<and> k \<noteq> i \<and> k \<noteq> j \<longrightarrow> vat ?h' cs k = vat h cs k"
    using v by simp
  ultimately show ?thesis using e kp by blast
qed

lemma keeps_ring: "keeps h' h cs l r \<Longrightarrow> ring h s ps \<Longrightarrow> ring h' s ps"
  by (auto simp: keeps_def intro: same_links_ring)

lemma partition_step_less:
  "lf \<noteq> rt \<Longrightarrow> valid h lf \<Longrightarrow> value_n h lf < p \<Longrightarrow> valid h sw \<Longrightarrow>
   SwapValues lf (next_n h sw) h = Inr h1 \<Longrightarrow> valid h1 lf \<Longrightarrow>
   partition_loop (Suc fuel) h p sw iS lf rt =
     partition_loop fuel h1 p (next_n h sw) (iS + 1) (next_n h1 lf) rt"
  by (simp add: it_deref_def it_inc_def rd_value_def rd_next_def)

lemma partition_step_eq:
  "lf \<noteq> rt \<Longrightarrow> valid h lf \<Longrightarrow> value_n h lf = p \<Longrightarrow> valid h rt \<Longrightarrow>
   SwapValues lf (prev_n h rt) h = Inr h1 \<Longrightarrow>
   partition_loop (Suc fuel) h p sw iS lf rt = partition_loop fuel h1 p sw iS lf (prev_n h rt)"
  by (simp add: it_deref_def it_dec_def rd_value_def rd_prev_def)

lemma partition_step_gr:
  assumes "lf \<noteq> rt" "valid h lf" "p < value_n h lf"
  shows "partition_loop (Suc fuel) h p sw iS lf rt =
    partition_loop fuel h p sw iS (next_n h lf) rt"
proof -
  have "\<not> value_n h lf < p" "value_n h lf \<noteq> p" using assms(3) by auto
  then show ?thesis
    using assms(1,2) by (simp add: it_deref_def it_inc_def rd_value_def rd_next_def)
qed

lemma partition_loop_ok:
  assumes n: "r \<le> length ps" and cs: "cs = s # ps"
  shows "ring h s ps \<Longrightarrow> zones h cs p l sw lf rt r \<Longrightarrow> unat iS = Suc sw - l \<Longrightarrow>
    rt - lf < fuel \<Longrightarrow>
    \<exists>h' sw' t' iS'.
      partition_loop fuel h p (cs ! sw) iS (cs ! lf) (cs ! rt) = Inr (h', cs ! sw', iS', cs ! t') \<and>
      zones h' cs p l sw' t' t' r \<and> unat iS' = Suc sw' - l \<and> keeps h' h cs l r"
proof (induction fuel arbitrary: h sw lf rt iS)
  case 0
  then show ?case by simp
next
  case (Suc fuel)
  note r = Suc.prems(1)
  note ri = ring_idx [OF r cs]
  have z: "l \<le> Suc sw" "sw < lf" "lf \<le> rt" "rt \<le> r"
    and z1: "\<And>i. l \<le> i \<Longrightarrow> i \<le> sw \<Longrightarrow> vat h cs i < p"
    and z2: "\<And>i. sw < i \<Longrightarrow> i < lf \<Longrightarrow> p < vat h cs i"
    and z3: "\<And>i. rt \<le> i \<Longrightarrow> i \<le> r \<Longrightarrow> vat h cs i = p"
    using Suc.prems(2) by (auto simp: zones_def)
  show ?case
  proof (cases "lf = rt")
    case True
    then have "partition_loop (Suc fuel) h p (cs ! sw) iS (cs ! lf) (cs ! rt) =
        Inr (h, cs ! sw, iS, cs ! rt)" by simp
    moreover have "zones h cs p l sw rt rt r" using Suc.prems(2) True by (simp add: zones_def)
    ultimately show ?thesis using Suc.prems(3)
      by - (rule exI [of _ h], rule exI [of _ sw], rule exI [of _ rt], rule exI [of _ iS], simp)
  next
    case False
    then have lt: "lf < rt" using z by simp
    have ne: "cs ! lf \<noteq> cs ! rt"
      using ri(6) [of lf rt] lt z n by simp
    have lfn: "lf < length ps" using lt z n by simp
    have swn: "sw < length ps" using z lfn by simp
    have vl: "valid h (cs ! lf)" using ri(5) [of lf] lfn by simp
    consider (less) "vat h cs lf < p" | (eq) "vat h cs lf = p" | (gr) "p < vat h cs lf"
      using less_linear by blast
    then show ?thesis
    proof cases
      case less
      have lb: "l \<le> lf" "l \<le> Suc sw" "Suc sw \<le> r" "lf \<le> r" using z lt by auto
      from swap_keeps [OF r cs lb(1,4,2,3) n] obtain h1 where
        sw1: "SwapValues (cs ! lf) (cs ! Suc sw) h = Inr h1" and k1: "keeps h1 h cs l r"
        and v1: "vat h1 cs lf = vat h cs (Suc sw)" "vat h1 cs (Suc sw) = vat h cs lf"
        and o1: "\<And>k. k \<le> length ps \<Longrightarrow> k \<noteq> lf \<Longrightarrow> k \<noteq> Suc sw \<Longrightarrow> vat h1 cs k = vat h cs k"
        by blast
      have r1: "ring h1 s ps" using keeps_ring [OF k1 r] .
      note ri1 = ring_idx [OF r1 cs]
      have i1: "unat (iS + 1) = Suc (Suc sw) - l"
        using unat_succ_len [of iS "Suc sw - l"] Suc.prems(3) ring_length [OF r] swn z by simp
      have z': "zones h1 cs p l (Suc sw) (Suc lf) rt r"
        unfolding zones_def
      proof (intro conjI allI impI)
        fix i assume "l \<le> i \<and> i \<le> Suc sw"
        then show "vat h1 cs i < p"
          using z1 [of i] o1 [of i] v1 less z lfn by (cases "i = Suc sw") auto
      next
        fix i assume a: "Suc sw < i \<and> i < Suc lf"
        show "p < vat h1 cs i"
        proof (cases "i = lf")
          case True
          with a have "sw < Suc sw" "Suc sw < lf" by auto
          with z2 [of "Suc sw"] v1 True show ?thesis by simp
        next
          case False
          with a o1 [of i] z2 [of i] lfn show ?thesis by simp
        qed
      next
        fix i assume "rt \<le> i \<and> i \<le> r"
        then show "vat h1 cs i = p"
          using z3 [of i] o1 [of i] lt z n by simp
      qed (use z lt in auto)
      have step: "partition_loop (Suc fuel) h p (cs ! sw) iS (cs ! lf) (cs ! rt) =
          partition_loop fuel h1 p (cs ! Suc sw) (iS + 1) (cs ! Suc lf) (cs ! rt)"
      proof -
        have "value_n h (cs ! lf) < p" using less by (simp add: vat_def)
        moreover have "valid h (cs ! sw)" using ri(5) [of sw] swn by simp
        moreover have "SwapValues (cs ! lf) (next_n h (cs ! sw)) h = Inr h1"
          using sw1 ri(1) [OF swn] by simp
        moreover have "valid h1 (cs ! lf)" using ri1(5) [of lf] lfn by simp
        ultimately show ?thesis
          using partition_step_less [OF ne vl] ri(1) [OF swn] ri1(1) [OF lfn] by simp
      qed
      have "rt - Suc lf < fuel" using Suc.prems(4) lt by simp
      from Suc.IH [OF r1 z' i1 this] obtain h' sw' t' iS' where
        a: "partition_loop fuel h1 p (cs ! Suc sw) (iS + 1) (cs ! Suc lf) (cs ! rt) =
          Inr (h', cs ! sw', iS', cs ! t')"
        "zones h' cs p l sw' t' t' r" "unat iS' = Suc sw' - l" and d: "keeps h' h1 cs l r"
        by blast
      have "keeps h' h cs l r" using keeps_trans [OF d k1] .
      with a step show ?thesis
        by - (rule exI [of _ h'], rule exI [of _ sw'], rule exI [of _ t'], rule exI [of _ iS'], simp)
    next
      case eq
      obtain t where t: "rt = Suc t" using lt by (cases rt) auto
      have tn: "t < length ps" using t z n by simp
      have lb: "l \<le> lf" "lf \<le> r" "l \<le> t" "t \<le> r" using z lt t by auto
      from swap_keeps [OF r cs lb n] obtain h1 where
        sw1: "SwapValues (cs ! lf) (cs ! t) h = Inr h1" and k1: "keeps h1 h cs l r"
        and v1: "vat h1 cs lf = vat h cs t" "vat h1 cs t = vat h cs lf"
        and o1: "\<And>k. k \<le> length ps \<Longrightarrow> k \<noteq> lf \<Longrightarrow> k \<noteq> t \<Longrightarrow> vat h1 cs k = vat h cs k"
        by blast
      have r1: "ring h1 s ps" using keeps_ring [OF k1 r] .
      have z': "zones h1 cs p l sw lf t r"
        unfolding zones_def
      proof (intro conjI allI impI)
        fix i assume "l \<le> i \<and> i \<le> sw"
        then show "vat h1 cs i < p" using z1 [of i] o1 [of i] z lt t lfn by simp
      next
        fix i assume "sw < i \<and> i < lf"
        then show "p < vat h1 cs i" using z2 [of i] o1 [of i] z lt t lfn by simp
      next
        fix i assume a: "t \<le> i \<and> i \<le> r"
        show "vat h1 cs i = p"
        proof (cases "i = t")
          case True
          with v1 eq show ?thesis by simp
        next
          case False
          with a t have "rt \<le> i" by simp
          with a z3 [of i] o1 [of i] False lt n show ?thesis by simp
        qed
      qed (use z lt t in auto)
      have step: "partition_loop (Suc fuel) h p (cs ! sw) iS (cs ! lf) (cs ! rt) =
          partition_loop fuel h1 p (cs ! sw) iS (cs ! lf) (cs ! t)"
      proof -
        have "value_n h (cs ! lf) = p" using eq by (simp add: vat_def)
        moreover have "valid h (cs ! rt)" using ri(5) [of rt] z n by simp
        moreover have "SwapValues (cs ! lf) (prev_n h (cs ! rt)) h = Inr h1"
          using sw1 ri(3) [OF tn] t by simp
        ultimately show ?thesis
          using partition_step_eq [OF ne vl] ri(3) [OF tn] t by simp
      qed
      have "t - lf < fuel" using Suc.prems(4) lt t by simp
      from Suc.IH [OF r1 z' Suc.prems(3) this] obtain h' sw' t' iS' where
        a: "partition_loop fuel h1 p (cs ! sw) iS (cs ! lf) (cs ! t) =
          Inr (h', cs ! sw', iS', cs ! t')"
        "zones h' cs p l sw' t' t' r" "unat iS' = Suc sw' - l" and d: "keeps h' h1 cs l r"
        by blast
      have "keeps h' h cs l r" using keeps_trans [OF d k1] .
      with a step show ?thesis
        by - (rule exI [of _ h'], rule exI [of _ sw'], rule exI [of _ t'], rule exI [of _ iS'], simp)
    next
      case gr
      have z': "zones h cs p l sw (Suc lf) rt r"
        unfolding zones_def
      proof (intro conjI allI impI)
        fix i assume "sw < i \<and> i < Suc lf"
        then show "p < vat h cs i" using z2 [of i] gr by (cases "i = lf") auto
      qed (use z lt z1 z3 in auto)
      have step: "partition_loop (Suc fuel) h p (cs ! sw) iS (cs ! lf) (cs ! rt) =
          partition_loop fuel h p (cs ! sw) iS (cs ! Suc lf) (cs ! rt)"
      proof -
        have "p < value_n h (cs ! lf)" using gr by (simp add: vat_def)
        then show ?thesis
          using partition_step_gr [OF ne vl] ri(1) [OF lfn] by simp
      qed
      have "rt - Suc lf < fuel" using Suc.prems(4) lt by simp
      from Suc.IH [OF r z' Suc.prems(3) this] obtain h' sw' t' iS' where
        a: "partition_loop fuel h p (cs ! sw) iS (cs ! Suc lf) (cs ! rt) =
          Inr (h', cs ! sw', iS', cs ! t')"
        "zones h' cs p l sw' t' t' r" "unat iS' = Suc sw' - l" and d: "keeps h' h cs l r"
        by blast
      with a d step show ?thesis
        by - (rule exI [of _ h'], rule exI [of _ sw'], rule exI [of _ t'], rule exI [of _ iS'], simp)
    qed
  qed
qed

lemma gather_step:
  "rt \<noteq> r \<Longrightarrow> SwapValues sw rt h = Inr h1 \<Longrightarrow> valid h1 sw \<Longrightarrow> valid h1 rt \<Longrightarrow>
   gather_loop (Suc fuel) h sw rt r nsr =
     gather_loop fuel h1 (next_n h1 sw) (next_n h1 rt) r (nsr - 1)"
  by (simp add: it_inc_def rd_next_def)

lemma unat_pred_ge:
  "0 < unat (w :: size_type) \<Longrightarrow> unat (w - 1) = unat w - 1"
  using unat_pred_len [of w "unat w - 1"] by simp

lemma gather_loop_ok:
  assumes n: "r \<le> length ps" and cs: "cs = s # ps"
  shows "ring h s ps \<Longrightarrow> g0 \<le> sw \<Longrightarrow> sw \<le> rt \<Longrightarrow> rt \<le> r \<Longrightarrow>
    \<forall>i. g0 \<le> i \<and> i < sw \<longrightarrow> vat h cs i = p \<Longrightarrow>
    \<forall>i. sw \<le> i \<and> i < rt \<longrightarrow> p < vat h cs i \<Longrightarrow>
    \<forall>i. rt \<le> i \<and> i \<le> r \<longrightarrow> vat h cs i = p \<Longrightarrow>
    r - rt \<le> unat nsr \<Longrightarrow> r - rt < fuel \<Longrightarrow>
    \<exists>h' nsr'.
      gather_loop fuel h (cs ! sw) (cs ! rt) (cs ! r) nsr = Inr (h', cs ! (sw + (r - rt)), nsr') \<and>
      unat nsr' = unat nsr - (r - rt) \<and>
      (\<forall>i. g0 \<le> i \<and> i < sw + (r - rt) \<longrightarrow> vat h' cs i = p) \<and>
      (\<forall>i. sw + (r - rt) \<le> i \<and> i < r \<longrightarrow> p < vat h' cs i) \<and>
      vat h' cs r = p \<and> keeps h' h cs g0 r"
proof (induction fuel arbitrary: h sw rt nsr)
  case 0
  then show ?case by simp
next
  case (Suc fuel)
  note r = Suc.prems(1)
  note ri = ring_idx [OF r cs]
  note b = Suc.prems(2,3,4)
  have z1: "\<And>i. g0 \<le> i \<Longrightarrow> i < sw \<Longrightarrow> vat h cs i = p"
    and z2: "\<And>i. sw \<le> i \<Longrightarrow> i < rt \<Longrightarrow> p < vat h cs i"
    and z3: "\<And>i. rt \<le> i \<Longrightarrow> i \<le> r \<Longrightarrow> vat h cs i = p"
    using Suc.prems(5,6,7) by auto
  show ?case
  proof (cases "rt = r")
    case True
    then have "gather_loop (Suc fuel) h (cs ! sw) (cs ! rt) (cs ! r) nsr = Inr (h, cs ! sw, nsr)"
      by simp
    then show ?thesis
      using True z1 z2 z3
      by - (rule exI [of _ h], rule exI [of _ nsr], simp)
  next
    case False
    then have lt: "rt < r" using b by simp
    have ne: "cs ! rt \<noteq> cs ! r" using ri(6) [of rt r] lt n by simp
    have rtn: "rt < length ps" and swn: "sw < length ps" using lt n b by auto
    have lb: "g0 \<le> sw" "sw \<le> r" "g0 \<le> rt" "rt \<le> r" using b by auto
    from swap_keeps [OF r cs lb n] obtain h1 where
      sw1: "SwapValues (cs ! sw) (cs ! rt) h = Inr h1" and k1: "keeps h1 h cs g0 r"
      and v1: "vat h1 cs sw = vat h cs rt" "vat h1 cs rt = vat h cs sw"
      and o1: "\<And>k. k \<le> length ps \<Longrightarrow> k \<noteq> sw \<Longrightarrow> k \<noteq> rt \<Longrightarrow> vat h1 cs k = vat h cs k"
      by blast
    have r1: "ring h1 s ps" using keeps_ring [OF k1 r] .
    note ri1 = ring_idx [OF r1 cs]
    have step: "gather_loop (Suc fuel) h (cs ! sw) (cs ! rt) (cs ! r) nsr =
        gather_loop fuel h1 (cs ! Suc sw) (cs ! Suc rt) (cs ! r) (nsr - 1)"
      using gather_step [OF ne sw1] ri1(5) [of sw] ri1(5) [of rt] swn rtn
        ri1(1) [OF swn] ri1(1) [OF rtn] by simp
    have u: "unat (nsr - 1) = unat nsr - 1"
      using unat_pred_ge [of nsr] Suc.prems(8) lt by simp
    have p1: "\<forall>i. g0 \<le> i \<and> i < Suc sw \<longrightarrow> vat h1 cs i = p"
    proof (intro allI impI)
      fix i assume a: "g0 \<le> i \<and> i < Suc sw"
      show "vat h1 cs i = p"
      proof (cases "i = sw")
        case True
        then show ?thesis using v1 z3 [of rt] lt by simp
      next
        case False
        then show ?thesis using a o1 [of i] z1 [of i] b swn by simp
      qed
    qed
    have p2: "\<forall>i. Suc sw \<le> i \<and> i < Suc rt \<longrightarrow> p < vat h1 cs i"
    proof (intro allI impI)
      fix i assume a: "Suc sw \<le> i \<and> i < Suc rt"
      show "p < vat h1 cs i"
      proof (cases "i = rt")
        case True
        with a have "sw < rt" by simp
        then show ?thesis using True v1 z2 [of sw] by simp
      next
        case False
        then show ?thesis using a o1 [of i] z2 [of i] rtn by simp
      qed
    qed
    have p3: "\<forall>i. Suc rt \<le> i \<and> i \<le> r \<longrightarrow> vat h1 cs i = p"
      using o1 z3 b n by simp
    have q: "g0 \<le> Suc sw" "Suc sw \<le> Suc rt" "Suc rt \<le> r" "r - Suc rt \<le> unat (nsr - 1)"
      "r - Suc rt < fuel"
      using b lt u Suc.prems(8,9) by auto
    from Suc.IH [OF r1 q(1,2,3) p1 p2 p3 q(4,5)] obtain h' nsr' where
      a: "gather_loop fuel h1 (cs ! Suc sw) (cs ! Suc rt) (cs ! r) (nsr - 1) =
          Inr (h', cs ! (Suc sw + (r - Suc rt)), nsr')"
      and a2: "unat nsr' = unat (nsr - 1) - (r - Suc rt)"
      and a3: "\<forall>i. g0 \<le> i \<and> i < Suc sw + (r - Suc rt) \<longrightarrow> vat h' cs i = p"
      and a4: "\<forall>i. Suc sw + (r - Suc rt) \<le> i \<and> i < r \<longrightarrow> p < vat h' cs i"
      and a5: "vat h' cs r = p" and d: "keeps h' h1 cs g0 r"
      by blast
    have e: "Suc sw + (r - Suc rt) = sw + (r - rt)" using lt by simp
    have "keeps h' h cs g0 r" using keeps_trans [OF d k1] .
    moreover have "unat nsr' = unat nsr - (r - rt)" using a2 u lt by simp
    ultimately show ?thesis
      using a a3 a4 a5 step unfolding e
      by - (rule exI [of _ h'], rule exI [of _ nsr'], simp)
  qed
qed

lemma funpow_next_idx:
  assumes r: "ring h s ps" and cs: "cs = s # ps"
  shows "i + k \<le> length ps \<Longrightarrow> (next_n h ^^ k) (cs ! i) = cs ! (i + k)"
proof (induction k arbitrary: i)
  case 0
  then show ?case by simp
next
  case (Suc k)
  have "next_n h (cs ! i) = cs ! Suc i"
    using ring_idx(1) [OF r cs, of i] Suc.prems by simp
  moreover have "(next_n h ^^ k) (cs ! Suc i) = cs ! (Suc i + k)"
    using Suc.IH [of "Suc i"] Suc.prems by simp
  ultimately show ?case by (simp add: funpow_swap1)
qed

lemma quick_sort_trivial:
  "\<not> 1 < cnt \<Longrightarrow> quick_sort (Suc fuel) h a b cnt = Inr h"
  by simp

lemma quick_sort_step:
  "left \<noteq> right \<Longrightarrow> 1 < cnt \<Longrightarrow> valid h left \<Longrightarrow> pivot_of fuel h left cnt = Inr pv \<Longrightarrow>
   valid h pv \<Longrightarrow> SwapValues pv right h = Inr h1 \<Longrightarrow>
   partition_loop fuel h1 (value_n h pv) (prev_n h left) 0 left right = Inr (h2, sw2, iS, tr) \<Longrightarrow>
   valid h2 sw2 \<Longrightarrow>
   gather_loop fuel h2 (next_n h2 sw2) tr right (cnt - iS - 1) = Inr (h3, sw4, nsr1) \<Longrightarrow>
   SwapValues sw4 right h3 = Inr h4 \<Longrightarrow> valid h4 sw4 \<Longrightarrow>
   quick_sort (Suc fuel) h left right cnt =
     bind_r (quick_sort fuel h4 left sw2 iS) (\<lambda>h5. quick_sort fuel h5 (next_n h4 sw4) right nsr1)"
  by (simp add: it_dec_def it_inc_def it_deref_def rd_prev_def rd_next_def rd_value_def)

lemma pivot_of_idx:
  assumes r: "ring h s ps" and cs: "cs = s # ps"
    and l: "1 \<le> l" "l < r" "r \<le> length ps" and c: "unat cnt = Suc r - l" and f: "r - l < fuel"
  shows "pivot_of fuel h (cs ! l) cnt = Inr (cs ! (l - 1 + (Suc r - l) div 2))"
proof -
  note ri = ring_idx [OF r cs]
  obtain l' where l': "l = Suc l'" using l(1) by (cases l) auto
  have ln: "l' < length ps" using l l' by simp
  have mem: "cs ! l' \<in> set (s # ps)"
    using ln cs by (metis length_Cons less_SucI nth_mem)
  have k: "(Suc r - l) div 2 \<le> r - l" using l by simp
  have "pivot_loop fuel h (cs ! l') 0 cnt = Inr ((next_n h ^^ (unat cnt div 2 - unat (0::size_type))) (cs ! l'))"
    by (rule pivot_loop_walk [OF r mem]) (use c f k in auto)
  moreover have "(next_n h ^^ ((Suc r - l) div 2)) (cs ! l') = cs ! (l' + (Suc r - l) div 2)"
    by (rule funpow_next_idx [OF r cs]) (use k l l' in auto)
  ultimately show ?thesis
    using ri(3) [OF ln] ri(5) [of l] l l' c
    by (simp add: pivot_of_def it_dec_def rd_prev_def)
qed

lemma quick_sort_ok:
  assumes cs: "cs = s # ps"
  shows "ring h s ps \<Longrightarrow> 1 \<le> l \<Longrightarrow> l \<le> r \<Longrightarrow> r \<le> length ps \<Longrightarrow> unat cnt = Suc r - l \<Longrightarrow>
    Suc r - l < fuel \<Longrightarrow>
    \<exists>h'. quick_sort fuel h (cs ! l) (cs ! r) cnt = Inr h' \<and> keeps h' h cs l r \<and>
      (\<forall>i j. l \<le> i \<and> i \<le> j \<and> j \<le> r \<longrightarrow> vat h' cs i \<le> vat h' cs j)"
proof (induction fuel arbitrary: h l r cnt)
  case 0
  then show ?case by simp
next
  case (Suc fuel)
  note r = Suc.prems(1)
  note ri = ring_idx [OF r cs]
  note b = Suc.prems(2,3,4)
  have len: "r < length cs" using b cs by simp
  show ?case
  proof (cases "l = r")
    case True
    then have "\<not> 1 < cnt" using Suc.prems(5) by (simp add: word_less_nat_alt)
    then have "quick_sort (Suc fuel) h (cs ! l) (cs ! r) cnt = Inr h"
      by (rule quick_sort_trivial)
    moreover have "vat h cs i \<le> vat h cs j" if "l \<le> i" "i \<le> j" "j \<le> r" for i j
    proof -
      have "i = j" using that True by simp
      then show ?thesis by simp
    qed
    ultimately show ?thesis by (intro exI [of _ h]) auto
  next
    case False
    then have lt: "l < r" using b by simp
    have c1: "1 < cnt" using Suc.prems(5) lt by (simp add: word_less_nat_alt)
    have ne: "cs ! l \<noteq> cs ! r" using ri(6) [of l r] lt b by simp
    have vl: "valid h (cs ! l)" using ri(5) [of l] lt b by simp
    have fl: "r - l < fuel" using Suc.prems(6) lt by simp
    obtain f' where f': "fuel = Suc f'" using fl by (cases fuel) auto
    obtain l' where l': "l = Suc l'" using b(1) by (cases l) auto
    have ln: "l' < length ps" using l' lt b by simp
    let ?pi = "l - 1 + (Suc r - l) div 2"
    have pib: "l \<le> ?pi" "?pi \<le> r" using lt b by auto
    have pv: "pivot_of fuel h (cs ! l) cnt = Inr (cs ! ?pi)"
      by (rule pivot_of_idx [OF r cs b(1) lt b(3) Suc.prems(5) fl])
    have vpi: "valid h (cs ! ?pi)" using ri(5) [of ?pi] pib b by simp
    let ?p = "vat h cs ?pi"
    from swap_keeps [OF r cs pib _ _ b(3), of r] b obtain h1 where
      s1: "SwapValues (cs ! ?pi) (cs ! r) h = Inr h1" and k1: "keeps h1 h cs l r"
      and v1: "vat h1 cs r = ?p"
      by auto
    have r1: "ring h1 s ps" using keeps_ring [OF k1 r] .
    have z1: "zones h1 cs ?p l l' l r r"
      using l' lt v1 by (auto simp: zones_def)
    have i0: "unat (0::size_type) = Suc l' - l" using l' by simp
    from partition_loop_ok [OF b(3) cs r1 z1 i0 fl] obtain h2 sw2 t2 iS where
      pl: "partition_loop fuel h1 ?p (cs ! l') 0 (cs ! l) (cs ! r) =
        Inr (h2, cs ! sw2, iS, cs ! t2)"
      and z2: "zones h2 cs ?p l sw2 t2 t2 r" and i2: "unat iS = Suc sw2 - l"
      and k2: "keeps h2 h1 cs l r"
      by blast
    have r2: "ring h2 s ps" using keeps_ring [OF k2 r1] .
    note ri2 = ring_idx [OF r2 cs]
    have zb: "l \<le> Suc sw2" "sw2 < t2" "t2 \<le> r"
      and za: "\<And>i. l \<le> i \<Longrightarrow> i \<le> sw2 \<Longrightarrow> vat h2 cs i < ?p"
      and zg: "\<And>i. sw2 < i \<Longrightarrow> i < t2 \<Longrightarrow> ?p < vat h2 cs i"
      and ze: "\<And>i. t2 \<le> i \<Longrightarrow> i \<le> r \<Longrightarrow> vat h2 cs i = ?p"
      using z2 by (auto simp: zones_def)
    have sw2n: "sw2 < length ps" using zb b by simp
    let ?g0 = "Suc sw2"
    have le: "iS \<le> cnt" using i2 Suc.prems(5) zb by (simp add: word_le_nat_alt)
    have "unat (cnt - iS) = Suc r - l - (Suc sw2 - l)"
      using unat_sub [OF le] i2 Suc.prems(5) by simp
    then have u0: "unat (cnt - iS) = r - sw2" using zb by auto
    have n0: "unat (cnt - iS - 1) = r - ?g0"
      using unat_pred_ge [of "cnt - iS"] u0 zb by simp
    have g: "?g0 \<le> ?g0" "?g0 \<le> t2" "r - t2 \<le> unat (cnt - iS - 1)" "r - t2 < fuel"
      using zb n0 fl by auto
    have gz: "\<forall>i. ?g0 \<le> i \<and> i < ?g0 \<longrightarrow> vat h2 cs i = ?p"
      "\<forall>i. ?g0 \<le> i \<and> i < t2 \<longrightarrow> ?p < vat h2 cs i"
      "\<forall>i. t2 \<le> i \<and> i \<le> r \<longrightarrow> vat h2 cs i = ?p"
      using zg ze by auto
    let ?sw3 = "?g0 + (r - t2)"
    from gather_loop_ok [OF b(3) cs r2 g(1,2) zb(3) gz g(3,4)] obtain h3 nsr1 where
      gl: "gather_loop fuel h2 (cs ! ?g0) (cs ! t2) (cs ! r) (cnt - iS - 1) =
        Inr (h3, cs ! ?sw3, nsr1)"
      and n1: "unat nsr1 = unat (cnt - iS - 1) - (r - t2)"
      and ge: "\<And>i. ?g0 \<le> i \<Longrightarrow> i < ?sw3 \<Longrightarrow> vat h3 cs i = ?p"
      and gg: "\<And>i. ?sw3 \<le> i \<Longrightarrow> i < r \<Longrightarrow> ?p < vat h3 cs i"
      and gr: "vat h3 cs r = ?p" and k3: "keeps h3 h2 cs ?g0 r"
      by blast
    have r3: "ring h3 s ps" using keeps_ring [OF k3 r2] .
    have sb: "?g0 \<le> ?sw3" "?sw3 \<le> r" using zb by auto
    have n1': "unat nsr1 = r - ?sw3" using n1 n0 zb by simp
    from swap_keeps [OF r3 cs sb _ _ b(3), of r] sb obtain h4 where
      s4: "SwapValues (cs ! ?sw3) (cs ! r) h3 = Inr h4" and k4: "keeps h4 h3 cs ?g0 r"
      and v4: "vat h4 cs ?sw3 = vat h3 cs r" "vat h4 cs r = vat h3 cs ?sw3"
      and o4: "\<And>k. k \<le> length ps \<Longrightarrow> k \<noteq> ?sw3 \<Longrightarrow> k \<noteq> r \<Longrightarrow> vat h4 cs k = vat h3 cs k"
      by auto
    have r4: "ring h4 s ps" using keeps_ring [OF k4 r3] .
    note ri4 = ring_idx [OF r4 cs]
    have A4: "vat h4 cs i < ?p" if "l \<le> i" "i \<le> sw2" for i
    proof -
      have "i < length cs" using that zb len by simp
      then have "vat h4 cs i = vat h2 cs i"
        using keeps_outside [OF k4, of i] keeps_outside [OF k3, of i] that by simp
      then show ?thesis using za that by simp
    qed
    have B4: "vat h4 cs i = ?p" if "?g0 \<le> i" "i \<le> ?sw3" for i
    proof (cases "i = ?sw3")
      case True
      then show ?thesis using v4 gr by simp
    next
      case False
      then have "vat h4 cs i = vat h3 cs i" using o4 [of i] that sb b by simp
      then show ?thesis using ge [of i] that False by simp
    qed
    have C4: "?p < vat h4 cs i" if "?sw3 < i" "i \<le> r" for i
    proof (cases "i = r")
      case True
      then show ?thesis using v4 gg [of ?sw3] that by simp
    next
      case False
      then have "vat h4 cs i = vat h3 cs i" using o4 [of i] that b by simp
      then show ?thesis using gg [of i] that False by simp
    qed
    have step: "quick_sort (Suc fuel) h (cs ! l) (cs ! r) cnt =
        bind_r (quick_sort fuel h4 (cs ! l) (cs ! sw2) iS)
          (\<lambda>h5. quick_sort fuel h5 (next_n h4 (cs ! ?sw3)) (cs ! r) nsr1)"
    proof (rule quick_sort_step [OF ne c1 vl pv vpi s1])
      show "partition_loop fuel h1 (value_n h (cs ! ?pi)) (prev_n h (cs ! l)) 0 (cs ! l) (cs ! r) =
          Inr (h2, cs ! sw2, iS, cs ! t2)"
        using pl ri(3) [OF ln] l' by (simp add: vat_def)
      show "valid h2 (cs ! sw2)" using ri2(5) [of sw2] sw2n by simp
      show "gather_loop fuel h2 (next_n h2 (cs ! sw2)) (cs ! t2) (cs ! r) (cnt - iS - 1) =
          Inr (h3, cs ! ?sw3, nsr1)"
        using gl ri2(1) [OF sw2n] by simp
      show "SwapValues (cs ! ?sw3) (cs ! r) h3 = Inr h4" by (rule s4)
      show "valid h4 (cs ! ?sw3)" using ri4(5) [of ?sw3] sb b by simp
    qed
    have "\<exists>h5. quick_sort fuel h4 (cs ! l) (cs ! sw2) iS = Inr h5 \<and> keeps h5 h4 cs l sw2 \<and>
        (\<forall>i j. l \<le> i \<and> i \<le> j \<and> j \<le> sw2 \<longrightarrow> vat h5 cs i \<le> vat h5 cs j)"
    proof (cases "l \<le> sw2")
      case True
      show ?thesis
        by (rule Suc.IH [OF r4 b(1) True _ i2]) (use zb b fl in auto)
    next
      case False
      then have "\<not> 1 < iS" using i2 by (simp add: word_less_nat_alt)
      then have "quick_sort fuel h4 (cs ! l) (cs ! sw2) iS = Inr h4"
        unfolding f' by (rule quick_sort_trivial)
      then show ?thesis using False by (intro exI [of _ h4]) auto
    qed
    then obtain h5 where q5: "quick_sort fuel h4 (cs ! l) (cs ! sw2) iS = Inr h5"
      and k5: "keeps h5 h4 cs l sw2"
      and s5: "\<And>i j. l \<le> i \<Longrightarrow> i \<le> j \<Longrightarrow> j \<le> sw2 \<Longrightarrow> vat h5 cs i \<le> vat h5 cs j"
      by blast
    have r5: "ring h5 s ps" using keeps_ring [OF k5 r4] .
    have "\<exists>h6. quick_sort fuel h5 (next_n h4 (cs ! ?sw3)) (cs ! r) nsr1 = Inr h6 \<and>
        keeps h6 h5 cs (Suc ?sw3) r \<and>
        (\<forall>i j. Suc ?sw3 \<le> i \<and> i \<le> j \<and> j \<le> r \<longrightarrow> vat h6 cs i \<le> vat h6 cs j)"
    proof (cases "?sw3 < r")
      case True
      then have nx: "next_n h4 (cs ! ?sw3) = cs ! Suc ?sw3" using ri4(1) [of ?sw3] b by simp
      have "\<exists>h6. quick_sort fuel h5 (cs ! Suc ?sw3) (cs ! r) nsr1 = Inr h6 \<and>
          keeps h6 h5 cs (Suc ?sw3) r \<and>
          (\<forall>i j. Suc ?sw3 \<le> i \<and> i \<le> j \<and> j \<le> r \<longrightarrow> vat h6 cs i \<le> vat h6 cs j)"
        by (rule Suc.IH [OF r5 _ _ b(3)]) (use True n1' fl zb in auto)
      then show ?thesis using nx by simp
    next
      case False
      then have "\<not> 1 < nsr1" using n1' by (simp add: word_less_nat_alt)
      then have "quick_sort fuel h5 (next_n h4 (cs ! ?sw3)) (cs ! r) nsr1 = Inr h5"
        unfolding f' by (rule quick_sort_trivial)
      then show ?thesis using False by (intro exI [of _ h5]) auto
    qed
    then obtain h6 where q6: "quick_sort fuel h5 (next_n h4 (cs ! ?sw3)) (cs ! r) nsr1 = Inr h6"
      and k6: "keeps h6 h5 cs (Suc ?sw3) r"
      and s6: "\<And>i j. Suc ?sw3 \<le> i \<Longrightarrow> i \<le> j \<Longrightarrow> j \<le> r \<Longrightarrow> vat h6 cs i \<le> vat h6 cs j"
      by blast
    have res: "quick_sort (Suc fuel) h (cs ! l) (cs ! r) cnt = Inr h6"
      using step q5 q6 by simp
    have kk: "keeps h6 h cs l r"
    proof -
      have "keeps h3 h2 cs l r" using keeps_widen [OF k3 zb(1) _ len] by simp
      moreover have "keeps h4 h3 cs l r" using keeps_widen [OF k4 zb(1) _ len] by simp
      moreover have "keeps h5 h4 cs l r" using keeps_widen [OF k5 _ _ len] zb by simp
      moreover have "keeps h6 h5 cs l r" using keeps_widen [OF k6 _ _ len] zb by simp
      ultimately show ?thesis using k1 k2 keeps_trans by blast
    qed
    have A6: "vat h6 cs i < ?p" if "l \<le> i" "i \<le> sw2" for i
    proof -
      have "vat h5 cs i < ?p"
        by (rule keeps_transfer [OF k5 _ that]) (use A4 in auto)
      moreover have "vat h6 cs i = vat h5 cs i"
        using keeps_outside [OF k6, of i] that zb len by simp
      ultimately show ?thesis by simp
    qed
    have B6: "vat h6 cs i = ?p" if "?g0 \<le> i" "i \<le> ?sw3" for i
    proof -
      have "vat h5 cs i = vat h4 cs i"
        using keeps_outside [OF k5, of i] that sb len by simp
      moreover have "vat h6 cs i = vat h5 cs i"
        using keeps_outside [OF k6, of i] that sb len by simp
      ultimately show ?thesis using B4 that by simp
    qed
    have C6: "?p < vat h6 cs i" if "?sw3 < i" "i \<le> r" for i
    proof -
      have "\<forall>k. Suc ?sw3 \<le> k \<and> k \<le> r \<longrightarrow> ?p < vat h5 cs k"
      proof (intro allI impI)
        fix k assume a: "Suc ?sw3 \<le> k \<and> k \<le> r"
        then have "vat h5 cs k = vat h4 cs k"
          using keeps_outside [OF k5, of k] len by simp
        then show "?p < vat h5 cs k" using C4 [of k] a by simp
      qed
      then show ?thesis
        by (rule keeps_transfer [OF k6]) (use that in auto)
    qed
    have S1: "vat h6 cs i \<le> vat h6 cs j" if "l \<le> i" "i \<le> j" "j \<le> sw2" for i j
    proof -
      have "vat h6 cs i = vat h5 cs i" "vat h6 cs j = vat h5 cs j"
        using keeps_outside [OF k6, of i] keeps_outside [OF k6, of j] that zb len by simp_all
      then show ?thesis using s5 that by simp
    qed
    have "vat h6 cs i \<le> vat h6 cs j" if ij: "l \<le> i" "i \<le> j" "j \<le> r" for i j
    proof -
      consider (a) "j \<le> sw2" | (b) "i \<le> sw2" "?g0 \<le> j" "j \<le> ?sw3"
        | (c) "i \<le> sw2" "?sw3 < j" | (d) "?g0 \<le> i" "j \<le> ?sw3"
        | (e) "?g0 \<le> i" "i \<le> ?sw3" "?sw3 < j" | (f) "?sw3 < i"
        using ij by linarith
      then show ?thesis
      proof cases
        case a
        then show ?thesis using S1 ij by simp
      next
        case b
        then show ?thesis using A6 [of i] B6 [of j] ij by simp
      next
        case c
        then show ?thesis using A6 [of i] C6 [of j] ij by simp
      next
        case d
        then show ?thesis using B6 [of i] B6 [of j] ij by simp
      next
        case e
        then show ?thesis using B6 [of i] C6 [of j] ij by simp
      next
        case f
        then show ?thesis using s6 [of i j] ij by simp
      qed
    qed
    with res kk show ?thesis by blast
  qed
qed

lemma elems_vat:
  assumes l: "lst h l ps" and cs: "cs = head_l l # ps"
  shows "elems h l = map (vat h cs) [1..<Suc (length ps)]"
proof -
  have "ps = map (\<lambda>i. cs ! i) [1..<Suc (length ps)]"
    by (rule nth_equalityI) (simp_all add: cs del: upt_Suc)
  then have "map (value_n h) ps = map (value_n h) (map (\<lambda>i. cs ! i) [1..<Suc (length ps)])"
    by simp
  then show ?thesis
    using lst_elems [OF l] by (simp add: vat_def comp_def)
qed

lemma sort_lst:
  assumes l: "lst h l ps" and f: "length ps < fuel"
  shows "\<exists>h'. sort_l fuel h l = Inr h' \<and> lst h' l ps \<and> same_links h' h \<and>
    sorted (elems h' l) \<and> mset (elems h' l) = mset (elems h l) \<and>
    (\<forall>z. z \<notin> set (head_l l # ps) \<longrightarrow> value_n h' z = value_n h z)"
proof -
  let ?s = "head_l l"
  define cs where "cs = ?s # ps"
  have r: "ring h ?s ps" and sz: "unat (size_l l) = length ps"
    using l by (simp_all add: lst_def)
  note ri = ring_idx [OF r cs_def]
  have s0: "cs ! 0 = ?s" by (simp add: cs_def)
  have vs: "valid h ?s" using ri(5) [of 0] s0 by simp
  obtain f' where f': "fuel = Suc f'" using f by (cases fuel) auto
  show ?thesis
  proof (cases "ps = []")
    case True
    then have "next_n h ?s = ?s" "prev_n h ?s = ?s" using ri(2,4) s0 by simp_all
    then have "sort_l fuel h l = Inr h"
      using vs unfolding f'
      by (simp add: sort_l_def begin_l_def it_dec_def end_l_def rd_next_def rd_prev_def)
    moreover have "elems h l = []" using lst_elems [OF l] True by simp
    ultimately show ?thesis using l by (intro exI [of _ h]) simp
  next
    case False
    then have n1: "1 \<le> length ps" by (cases ps) auto
    have "0 < length ps" using False by simp
    from ri(1) [OF this] have nx: "next_n h ?s = cs ! 1" unfolding s0 by simp
    have pr: "prev_n h ?s = cs ! length ps" using ri(4) s0 by simp
    have e: "sort_l fuel h l = quick_sort fuel h (cs ! 1) (cs ! length ps) (size_l l)"
      using vs nx pr
      by (simp add: sort_l_def begin_l_def it_dec_def end_l_def rd_next_def rd_prev_def)
    from quick_sort_ok [OF cs_def r _ n1 _ _ _, of "size_l l" fuel] sz f obtain h' where
      q: "quick_sort fuel h (cs ! 1) (cs ! length ps) (size_l l) = Inr h'"
      and k: "keeps h' h cs 1 (length ps)"
      and s: "\<And>i j. 1 \<le> i \<Longrightarrow> i \<le> j \<Longrightarrow> j \<le> length ps \<Longrightarrow> vat h' cs i \<le> vat h' cs j"
      by auto
    have r': "ring h' ?s ps" using keeps_ring [OF k r] .
    have l': "lst h' l ps" using r' sz by (simp add: lst_def)
    have ev': "elems h' l = map (vat h' cs) [1..<Suc (length ps)]"
      by (rule elems_vat [OF l' cs_def])
    have ev: "elems h l = map (vat h cs) [1..<Suc (length ps)]"
      by (rule elems_vat [OF l cs_def])
    have "sorted (elems h' l)"
      unfolding ev' sorted_iff_nth_mono using s by (simp del: upt_Suc)
    moreover have "mset (elems h' l) = mset (elems h l)"
    proof -
      have "mset (map (vat g cs) [1..<Suc (length ps)]) =
          image_mset (vat g cs) (mset_set {1..length ps})" for g :: "'a heap"
        by (simp add: mset_upt atLeastLessThanSuc_atLeastAtMost del: upt_Suc)
      then show ?thesis using k unfolding ev ev' by (simp add: keeps_def)
    qed
    moreover have "same_links h' h" using k by (simp add: keeps_def)
    moreover have "\<forall>z. z \<notin> set (?s # ps) \<longrightarrow> value_n h' z = value_n h z"
      using k by (simp add: keeps_def cs_def)
    ultimately show ?thesis using e q l' by auto
  qed
qed

text \<open>
  C1. For every well-formed list whose elements are linearly ordered by \<^verbatim>\<open><\<close>, \<^verbatim>\<open>sort()\<close>
  returns (given fuel beyond the size for the loops and the recursion) and leaves the
  element sequence non-decreasing; every value occurs as often after the call as before
  it; the nodes and their order are the same, only values have moved, and the list is
  still well formed.
\<close>

theorem sort_sorted_permutation:
  assumes "wf_list h l" and "unat (size_l l) < fuel"
  shows "\<exists>h'. sort_l fuel h l = Inr h' \<and> sorted (elems h' l) \<and>
    mset (elems h' l) = mset (elems h l) \<and> nodes h' l = nodes h l \<and> wf_list h' l"
proof -
  have l: "lst h l (nodes h l)" using assms(1) by (simp add: wf_list_lst)
  have f: "length (nodes h l) < fuel" using assms(2) by (simp add: nodes_def)
  from sort_lst [OF l f] show ?thesis
    by (auto simp: lst_nodes lst_wf)
qed

theorem sort_sorted_permutation_witness:
  "(wf_list exs_h exs_l \<and> unat (size_l exs_l) < (5::nat)) \<and>
   (\<exists>h'. sort_l 5 exs_h exs_l = Inr h' \<and> elems h' exs_l = [1, 3, 5, 8])"
proof -
  have f: "wf_list exs_h exs_l" "unat (size_l exs_l) < (5::nat)"
    by (simp_all add: ex_defs model_defs)
  have g: "elems exs_h exs_l = [5, 3, 8, 1]" by (simp add: ex_defs model_defs)
  from sort_sorted_permutation [OF f] obtain h' where
    h': "sort_l 5 exs_h exs_l = Inr h'" "sorted (elems h' exs_l)"
    "mset (elems h' exs_l) = mset (elems exs_h exs_l)"
    by blast
  have "sort [5, 3, 8, 1 :: int] = elems h' exs_l"
    by (rule properties_for_sort) (use h' g in simp_all)
  then have "elems h' exs_l = [1, 3, 5, 8]" by simp
  with h'(1) f show ?thesis by blast
qed

end
